theory Spec2Isabelle
  imports Complex_Main "HOL-Library.Stream" "HOL-Library.Multiset"
begin

section \<open>Data model of \<open>src/App.tsx\<close>\<close>

text \<open>
  JavaScript numbers are idealised as exact reals: \<open>NaN\<close> and the infinities are not
  modelled, and rounding to IEEE-754 doubles is modelled only where a result turns on it
  (the seeded readings, in the section on double-precision arithmetic). Timestamps are
  the integer milliseconds that \<open>Date.now()\<close> returns.
\<close>

datatype ParamKey =
  Temp | Sal | Ph | Do | Turb | Chl | Gene_expr | Methyl | Metabo | Lipid_ox

record Reading =
  ts :: int
  temp :: real
  sal :: real
  ph :: real
  do_mgL :: real
  turb :: real
  chl :: real
  gene_expr :: real
  methyl :: real
  metabo :: real
  lipid_ox :: real

record Site =
  site_id :: string
  site_name :: string
  lat :: real
  lon :: real
  depth_m :: real

definition SITES :: "Site list" where
  "SITES =
    [\<lparr>site_id = ''PS-EDMONDS'', site_name = ''Edmonds Nearshore'',
       lat = 47.812, lon = -122.377, depth_m = 4\<rparr>,
     \<lparr>site_id = ''PS-ALKI'', site_name = ''Alki Cove'',
       lat = 47.576, lon = -122.413, depth_m = 5\<rparr>,
     \<lparr>site_id = ''PS-DOCKTON'', site_name = ''Dockton Cove'',
       lat = 47.373, lon = -122.463, depth_m = 3\<rparr>,
     \<lparr>site_id = ''PS-SKAGIT'', site_name = ''Skagit Bay Farm'',
       lat = 48.327, lon = -122.482, depth_m = 2\<rparr>]"

datatype direction = Over | Under

datatype severity = Ok | Warn | Crit

record threshold =
  warn :: real
  crit :: real
  dir :: direction

text \<open>
  \<open>THRESHOLDS\<close> is a module-level table whose \<open>warn\<close> and \<open>crit\<close> fields the
  threshold form overwrites in place, so the classifier takes the table it reads as an
  argument; \<open>THRESHOLDS\<close> below is its initial content.
\<close>

type_synonym thresholds = "ParamKey \<Rightarrow> threshold"

fun THRESHOLDS :: thresholds where
  "THRESHOLDS Temp = \<lparr>warn = 20, crit = 24, dir = Over\<rparr>"
| "THRESHOLDS Sal = \<lparr>warn = 20, crit = 15, dir = Under\<rparr>"
| "THRESHOLDS Ph = \<lparr>warn = 7.7, crit = 7.6, dir = Under\<rparr>"
| "THRESHOLDS Do = \<lparr>warn = 6.0, crit = 4.0, dir = Under\<rparr>"
| "THRESHOLDS Turb = \<lparr>warn = 50, crit = 150, dir = Over\<rparr>"
| "THRESHOLDS Chl = \<lparr>warn = 15, crit = 40, dir = Over\<rparr>"
| "THRESHOLDS Gene_expr = \<lparr>warn = 40, crit = 70, dir = Over\<rparr>"
| "THRESHOLDS Methyl = \<lparr>warn = 0.55, crit = 0.7, dir = Over\<rparr>"
| "THRESHOLDS Metabo = \<lparr>warn = 50, crit = 75, dir = Over\<rparr>"
| "THRESHOLDS Lipid_ox = \<lparr>warn = 0.35, crit = 0.55, dir = Over\<rparr>"

section \<open>Alert classification\<close>

definition classifyAlert :: "thresholds \<Rightarrow> ParamKey \<Rightarrow> real \<Rightarrow> severity" where
  "classifyAlert th key v =
     (if dir (th key) = Over then
        (if v \<ge> crit (th key) then Crit
         else if v \<ge> warn (th key) then Warn
         else Ok)
      else
        (if v \<le> crit (th key) then Crit
         else if v \<le> warn (th key) then Warn
         else Ok))"

text \<open>The order \<open>ok < warning < critical\<close> of the severities, as a rank.\<close>

fun rank :: "severity \<Rightarrow> nat" where
  "rank Ok = 0"
| "rank Warn = 1"
| "rank Crit = 2"

section \<open>The reading generator\<close>

text \<open>
  \<open>Math.random()\<close> reads a global source of draws. The source is a stream of reals;
  every call takes the head and leaves the tail, so the order of the calls is the order
  in which the code makes them.
\<close>

type_synonym rng = "real stream"

definition Math_random :: "rng \<Rightarrow> real \<times> rng" where
  "Math_random g = (shd g, stl g)"

definition randomWalk :: "real \<Rightarrow> real \<Rightarrow> real \<Rightarrow> real \<Rightarrow> rng \<Rightarrow> real \<times> rng" where
  "randomWalk prev step mn mx g =
     (case Math_random g of (u, g') \<Rightarrow>
        (let next = prev + (u - 0.5) * step
         in (max mn (min mx next), g')))"

definition generateSeeded :: "int \<Rightarrow> rng \<Rightarrow> Reading \<times> rng" where
  "generateSeeded start g0 =
     (case Math_random g0 of (u1, g1) \<Rightarrow>
      case Math_random g1 of (u2, g2) \<Rightarrow>
      case Math_random g2 of (u3, g3) \<Rightarrow>
      case Math_random g3 of (u4, g4) \<Rightarrow>
      case Math_random g4 of (u5, g5) \<Rightarrow>
      case Math_random g5 of (u6, g6) \<Rightarrow>
      case Math_random g6 of (u7, g7) \<Rightarrow>
      case Math_random g7 of (u8, g8) \<Rightarrow>
      case Math_random g8 of (u9, g9) \<Rightarrow>
      case Math_random g9 of (u10, g10) \<Rightarrow>
        (\<lparr>ts = start,
          temp = 16 + u1 * 4,
          sal = 28 + u2 * 3,
          ph = 7.8 + u3 * 0.2,
          do_mgL = 7 + u4 * 2,
          turb = 10 + u5 * 25,
          chl = 3 + u6 * 10,
          gene_expr = 20 + u7 * 20,
          methyl = 0.4 + u8 * 0.1,
          metabo = 20 + u9 * 20,
          lipid_ox = 0.25 + u10 * 0.1\<rparr>, g10))"

definition tick :: "Reading \<Rightarrow> int \<Rightarrow> rng \<Rightarrow> Reading \<times> rng" where
  "tick prev t g0 =
     (case randomWalk (temp prev) 0.3 8 26 g0 of (v1, g1) \<Rightarrow>
      case randomWalk (sal prev) 0.3 10 33 g1 of (v2, g2) \<Rightarrow>
      case randomWalk (ph prev) 0.05 7.3 8.3 g2 of (v3, g3) \<Rightarrow>
      case randomWalk (do_mgL prev) 0.4 1.5 12 g3 of (v4, g4) \<Rightarrow>
      case randomWalk (turb prev) 6 1 300 g4 of (v5, g5) \<Rightarrow>
      case randomWalk (chl prev) 3 0.1 120 g5 of (v6, g6) \<Rightarrow>
      case randomWalk (gene_expr prev) 4 0 100 g6 of (v7, g7) \<Rightarrow>
      case randomWalk (methyl prev) 0.03 0 1 g7 of (v8, g8) \<Rightarrow>
      case randomWalk (metabo prev) 5 0 100 g8 of (v9, g9) \<Rightarrow>
      case randomWalk (lipid_ox prev) 0.03 0 1 g9 of (v10, g10) \<Rightarrow>
        (\<lparr>ts = t, temp = v1, sal = v2, ph = v3, do_mgL = v4, turb = v5, chl = v6,
          gene_expr = v7, methyl = v8, metabo = v9, lipid_ox = v10\<rparr>, g10))"

text \<open>
  The closed ranges that \<open>tick\<close> clamps to, per parameter (the \<open>min\<close> and \<open>max\<close>
  arguments of its ten \<open>randomWalk\<close> calls).
\<close>

definition in_bounds :: "Reading \<Rightarrow> bool" where
  "in_bounds r \<longleftrightarrow>
     8 \<le> temp r \<and> temp r \<le> 26 \<and>
     10 \<le> sal r \<and> sal r \<le> 33 \<and>
     7.3 \<le> ph r \<and> ph r \<le> 8.3 \<and>
     1.5 \<le> do_mgL r \<and> do_mgL r \<le> 12 \<and>
     1 \<le> turb r \<and> turb r \<le> 300 \<and>
     0.1 \<le> chl r \<and> chl r \<le> 120 \<and>
     0 \<le> gene_expr r \<and> gene_expr r \<le> 100 \<and>
     0 \<le> methyl r \<and> methyl r \<le> 1 \<and>
     0 \<le> metabo r \<and> metabo r \<le> 100 \<and>
     0 \<le> lipid_ox r \<and> lipid_ox r \<le> 1"

text \<open>
  The spec's formula for one stepped value,
  \<open>clamp(previous + uniform(-stepSize/2, +stepSize/2), min, max)\<close>, with the uniform
  perturbation obtained from a draw \<open>u\<close>.
\<close>

definition clamp :: "real \<Rightarrow> real \<Rightarrow> real \<Rightarrow> real" where
  "clamp x mn mx = (if x < mn then mn else if x > mx then mx else x)"

definition perturb :: "real \<Rightarrow> real \<Rightarrow> real" where
  "perturb u step = (u - 1 / 2) * step"

text \<open>
  Repeated \<open>tick\<close> calls, each from the reading the previous call returned, at the given
  timestamps; the readings are collected in the order produced.
\<close>

fun ticks :: "Reading \<Rightarrow> int list \<Rightarrow> rng \<Rightarrow> Reading list \<times> rng" where
  "ticks prev [] g = ([], g)"
| "ticks prev (t # tss) g =
     (case tick prev t g of (r, g') \<Rightarrow>
      case ticks r tss g' of (rs, g'') \<Rightarrow> (r # rs, g''))"

section \<open>The series buffers\<close>

text \<open>
  \<open>Date.now()\<close> reads the clock; like the random source, the clock is a stream of the
  values its successive calls return.
\<close>

type_synonym clock = "int stream"

definition Date_now :: "clock \<Rightarrow> int \<times> clock" where
  "Date_now c = (shd c, stl c)"

text \<open>The state \<open>series\<close> of \<open>App\<close>: an object from site ids to arrays of readings.\<close>

type_synonym series = "string \<rightharpoonup> Reading list"

text \<open>
  The seeding effect. Its inner loop
  \<open>for (let t = now - 3 * 3600_000; t <= now; t += 300_000) { r = tick(r, t); rows.push(r); }\<close>
  is \<open>seed_loop\<close>, with the loop variables \<open>t\<close>, \<open>r\<close> and \<open>rows\<close> as arguments.
\<close>

function seed_loop :: "int \<Rightarrow> int \<Rightarrow> Reading \<Rightarrow> Reading list \<Rightarrow> rng \<Rightarrow> Reading list \<times> rng" where
  "seed_loop t now r rows g =
     (if t \<le> now then
        (case tick r t g of (r', g') \<Rightarrow> seed_loop (t + 300000) now r' (rows @ [r']) g')
      else (rows, g))"
  by pat_completeness auto

termination
  by (relation "measure (\<lambda>(t, now, r, rows, g). nat (now - t + 1))") auto

definition seedSite :: "int \<Rightarrow> rng \<Rightarrow> Reading list \<times> rng" where
  "seedSite now g =
     (case generateSeeded (now - 3 * 3600000) g of (r, g') \<Rightarrow>
        seed_loop (now - 3 * 3600000) now r [] g')"

fun seed_sites :: "Site list \<Rightarrow> series \<Rightarrow> clock \<Rightarrow> rng \<Rightarrow> series \<times> clock \<times> rng" where
  "seed_sites [] seed c g = (seed, c, g)"
| "seed_sites (site # rest) seed c g =
     (case Date_now c of (now, c') \<Rightarrow>
      case seedSite now g of (rows, g') \<Rightarrow>
        seed_sites rest (seed(site_id site \<mapsto> rows)) c' g')"

definition seedEffect :: "clock \<Rightarrow> rng \<Rightarrow> series \<times> clock \<times> rng" where
  "seedEffect c g = seed_sites SITES Map.empty c g"

text \<open>
  \<open>arr.slice(-n)\<close>: the array from index \<open>max(length - n, 0)\<close> on.
\<close>

definition slice_last :: "nat \<Rightarrow> 'a list \<Rightarrow> 'a list" where
  "slice_last n arr = drop (nat (max (int (length arr) - int n) 0)) arr"

text \<open>
  The interval callback \<open>setSeries(prev => ...)\<close>: one simulation tick for every site.
  \<open>copy[site.id] ?? []\<close> reads a missing entry as the empty array, and
  \<open>arr[arr.length - 1] ?? generateSeeded(now)\<close> seeds a reading when the array is empty.
\<close>

fun advance_sites :: "Site list \<Rightarrow> int \<Rightarrow> series \<Rightarrow> rng \<Rightarrow> series \<times> rng" where
  "advance_sites [] now copy g = (copy, g)"
| "advance_sites (site # rest) now copy g =
     (let arr = (case copy (site_id site) of None \<Rightarrow> [] | Some a \<Rightarrow> a) in
      case (if arr = [] then generateSeeded now g else (last arr, g)) of (lst, g1) \<Rightarrow>
      case tick lst now g1 of (next, g2) \<Rightarrow>
        advance_sites rest now (copy(site_id site \<mapsto> slice_last 240 arr @ [next])) g2)"

definition advance :: "series \<Rightarrow> clock \<Rightarrow> rng \<Rightarrow> series \<times> clock \<times> rng" where
  "advance prev c g =
     (case Date_now c of (now, c') \<Rightarrow>
      case advance_sites SITES now prev g of (copy, g') \<Rightarrow> (copy, c', g'))"

text \<open>The state after the seeding effect and \<open>n\<close> firings of the interval.\<close>

fun run :: "nat \<Rightarrow> clock \<Rightarrow> rng \<Rightarrow> series \<times> clock \<times> rng" where
  "run 0 c g = seedEffect c g"
| "run (Suc n) c g = (case run n c g of (m, c', g') \<Rightarrow> advance m c' g')"

section \<open>Auxiliary definitions for the buffers\<close>

text \<open>
  The timestamps the seeding loop visits from \<open>t\<close>: \<open>t, t + 300000, \<dots>\<close> while not
  after \<open>now\<close>.
\<close>

definition stamps :: "int \<Rightarrow> int \<Rightarrow> int list" where
  "stamps t now =
     map (\<lambda>k. t + 300000 * int k)
       [0..<(if t \<le> now then nat ((now - t) div 300000 + 1) else 0)]"

text \<open>\<open>copy[site.id] ?? []\<close>: the series of a site, empty when the entry is missing.\<close>

definition lookup_series :: "series \<Rightarrow> string \<Rightarrow> Reading list" where
  "lookup_series copy sid = (case copy sid of None \<Rightarrow> [] | Some a \<Rightarrow> a)"

text \<open>
  The body of the loop of \<open>advance_sites\<close> for one site, as a function of that site's
  series: the new series and the random source left over (\<open>advance_sites_Cons\<close> below
  shows that the loop is this step, site after site).
\<close>

definition site_step :: "Reading list \<Rightarrow> int \<Rightarrow> rng \<Rightarrow> Reading list \<times> rng" where
  "site_step arr now g =
     (case (if arr = [] then generateSeeded now g else (last arr, g)) of (lst, g1) \<Rightarrow>
      case tick lst now g1 of (next, g2) \<Rightarrow> (slice_last 240 arr @ [next], g2))"

text \<open>
  The number of draws one site takes (ten for \<open>tick\<close>, ten more when its series is
  empty and a reading is seeded), and the number taken before the turn of site \<open>sid\<close>.
\<close>

definition draws_used :: "Reading list \<Rightarrow> nat" where
  "draws_used arr = (if arr = [] then 20 else 10)"

fun draws_before :: "Site list \<Rightarrow> series \<Rightarrow> string \<Rightarrow> nat" where
  "draws_before [] copy sid = 0"
| "draws_before (site # rest) copy sid =
     (if site_id site = sid then 0
      else draws_used (lookup_series copy (site_id site)) + draws_before rest copy sid)"

section \<open>CSV export\<close>

text \<open>
  \<open>toCSV\<close> calls three built-ins of the host. \<open>new Date(t).toISOString()\<close> throws a
  \<open>RangeError\<close> unless \<open>t\<close> is a valid time value (at most 8.64e15 in magnitude);
  the ISO-8601 text of a valid time value is left to the host, as is the text that
  \<open>toFixed\<close> falls back to for a magnitude of \<open>10^21\<close> or more
  (\<open>Number::toString\<close>, an exponential notation). Both are fields of \<open>host\<close>.
\<close>

datatype js_error = RangeError

record host =
  Date_toISOString :: "int \<Rightarrow> string"
  Number_toString :: "real \<Rightarrow> string"

text \<open>The decimal digits of a natural number, most significant first.\<close>

definition digit_char :: "nat \<Rightarrow> char" where
  "digit_char d = ''0123456789'' ! d"

fun digits :: "nat \<Rightarrow> string" where
  "digits n = (if n < 10 then [digit_char n] else digits (n div 10) @ [digit_char (n mod 10)])"

declare digits.simps [simp del]

text \<open>
  \<open>join\<close> turns the number \<open>r.ts\<close> into text; for an integer below \<open>10^21\<close> in
  magnitude that is its decimal digits, with a minus sign when negative.
\<close>

definition int_toString :: "int \<Rightarrow> string" where
  "int_toString i = (if i < 0 then ''-'' @ digits (nat (- i)) else digits (nat i))"

text \<open>
  \<open>x.toFixed(f)\<close> as ECMAScript defines it: the sign is split off, \<open>n\<close> is the
  integer for which \<open>n / 10^f\<close> is nearest to the magnitude (the larger one on a tie),
  its digits are padded with leading zeros to \<open>f + 1\<close> characters, and a point goes
  before the last \<open>f\<close> of them.
\<close>

definition toFixed :: "host \<Rightarrow> real \<Rightarrow> nat \<Rightarrow> string" where
  "toFixed h x f =
     (let s = (if x < 0 then ''-'' else '''');
          a = (if x < 0 then - x else x)
      in if a \<ge> 10 ^ 21 then s @ Number_toString h a
         else
           (let n = nat \<lfloor>a * 10 ^ f + 1 / 2\<rfloor>;
                m = digits n
            in if f = 0 then s @ m
               else
                 (let m' = (if length m \<le> f then replicate (f + 1 - length m) (CHR ''0'') @ m else m);
                      k = length m'
                  in s @ take (k - f) m' @ ''.'' @ drop (k - f) m')))"

definition toISOString :: "host \<Rightarrow> int \<Rightarrow> js_error + string" where
  "toISOString h t =
     (if \<bar>t\<bar> \<le> 8640000000000000 then Inr (Date_toISOString h t) else Inl RangeError)"

text \<open>\<open>Array.prototype.join\<close> on an array of strings.\<close>

fun join :: "string \<Rightarrow> string list \<Rightarrow> string" where
  "join sep [] = []"
| "join sep [x] = x"
| "join sep (x # y # ys) = x @ sep @ join sep (y # ys)"

definition csv_header :: string where
  "csv_header = join '','' [''timestamp'', ''time_local'', ''temp_c'', ''sal_psu'', ''ph'',
     ''do_mgL'', ''turb_ntu'', ''chl_ugL'', ''gene_expr_AU'', ''methyl_frac'', ''metabo_AU'',
     ''lipid_ox_frac'']"

definition csv_line :: "host \<Rightarrow> Reading \<Rightarrow> js_error + string" where
  "csv_line h r =
     (case toISOString h (ts r) of
        Inl e \<Rightarrow> Inl e
      | Inr time_local \<Rightarrow>
          Inr (join '',''
            [int_toString (ts r), time_local,
             toFixed h (temp r) 2, toFixed h (sal r) 2, toFixed h (ph r) 2,
             toFixed h (do_mgL r) 2, toFixed h (turb r) 1, toFixed h (chl r) 1,
             toFixed h (gene_expr r) 1, toFixed h (methyl r) 3, toFixed h (metabo r) 1,
             toFixed h (lipid_ox r) 3]))"

text \<open>
  \<open>rows.map(r => [...].join(","))\<close>: the rows are rendered in order, and the first
  exception ends the call.
\<close>

fun csv_lines :: "host \<Rightarrow> Reading list \<Rightarrow> js_error + string list" where
  "csv_lines h [] = Inr []"
| "csv_lines h (r # rs) =
     (case csv_line h r of
        Inl e \<Rightarrow> Inl e
      | Inr l \<Rightarrow> (case csv_lines h rs of Inl e \<Rightarrow> Inl e | Inr ls \<Rightarrow> Inr (l # ls)))"

definition newline :: string where
  "newline = [CHR 0x0A]"

definition toCSV :: "host \<Rightarrow> Reading list \<Rightarrow> js_error + string" where
  "toCSV h rows =
     (case csv_lines h rows of
        Inl e \<Rightarrow> Inl e
      | Inr ls \<Rightarrow> Inr (join newline (csv_header # ls)))"

text \<open>
  The spec's fixed-precision format, written from its words: a number with exactly \<open>d\<close>
  decimals is the sign, the integer part of the nearest multiple of \<open>10^-d\<close>, a point
  and the \<open>d\<close> digits of its fraction.
\<close>

definition zero_pad :: "nat \<Rightarrow> string \<Rightarrow> string" where
  "zero_pad d s = replicate (d - length s) (CHR ''0'') @ s"

definition fixed_decimal :: "real \<Rightarrow> nat \<Rightarrow> string" where
  "fixed_decimal x d =
     (let n = nat \<lfloor>\<bar>x\<bar> * 10 ^ d + 1 / 2\<rfloor>
      in (if x < 0 then ''-'' else '''')
         @ digits (n div 10 ^ d) @ ''.'' @ zero_pad d (digits (n mod 10 ^ d)))"

text \<open>
  A reading that \<open>toCSV\<close> renders in fixed notation: its timestamp is a valid time
  value and every value is below \<open>10^21\<close> in magnitude. Every reading within the
  documented ranges is one.
\<close>

definition printable :: "Reading \<Rightarrow> bool" where
  "printable r \<longleftrightarrow>
     \<bar>ts r\<bar> \<le> 8640000000000000 \<and>
     \<bar>temp r\<bar> < 10 ^ 21 \<and> \<bar>sal r\<bar> < 10 ^ 21 \<and> \<bar>ph r\<bar> < 10 ^ 21 \<and>
     \<bar>do_mgL r\<bar> < 10 ^ 21 \<and> \<bar>turb r\<bar> < 10 ^ 21 \<and> \<bar>chl r\<bar> < 10 ^ 21 \<and>
     \<bar>gene_expr r\<bar> < 10 ^ 21 \<and> \<bar>methyl r\<bar> < 10 ^ 21 \<and> \<bar>metabo r\<bar> < 10 ^ 21 \<and>
     \<bar>lipid_ox r\<bar> < 10 ^ 21"

text \<open>The row the spec describes for one reading.\<close>

definition csv_row :: "host \<Rightarrow> Reading \<Rightarrow> string" where
  "csv_row h r =
     join '',''
       [int_toString (ts r), Date_toISOString h (ts r),
        fixed_decimal (temp r) 2, fixed_decimal (sal r) 2, fixed_decimal (ph r) 2,
        fixed_decimal (do_mgL r) 2, fixed_decimal (turb r) 1, fixed_decimal (chl r) 1,
        fixed_decimal (gene_expr r) 1, fixed_decimal (methyl r) 3, fixed_decimal (metabo r) 1,
        fixed_decimal (lipid_ox r) 3]"

section \<open>Active alerts\<close>

text \<open>The records that the \<open>alerts\<close> memo of \<open>App\<close> builds: \<open>{ key, level, value }\<close>.\<close>

record AlertRecord =
  a_key :: ParamKey
  a_level :: severity
  a_value :: real

text \<open>The dynamic field access \<open>(latest as any)[k]\<close>.\<close>

fun param_value :: "ParamKey \<Rightarrow> Reading \<Rightarrow> real" where
  "param_value Temp r = temp r"
| "param_value Sal r = sal r"
| "param_value Ph r = ph r"
| "param_value Do r = do_mgL r"
| "param_value Turb r = turb r"
| "param_value Chl r = chl r"
| "param_value Gene_expr r = gene_expr r"
| "param_value Methyl r = methyl r"
| "param_value Metabo r = metabo r"
| "param_value Lipid_ox r = lipid_ox r"

definition keys :: "ParamKey list" where
  "keys = [Temp, Sal, Ph, Do, Turb, Chl, Gene_expr, Methyl, Metabo, Lipid_ox]"

text \<open>The comparator \<open>(a, b) => (a.level === "crit" ? -1 : 1)\<close>.\<close>

definition alert_cmp :: "AlertRecord \<Rightarrow> AlertRecord \<Rightarrow> int" where
  "alert_cmp a b = (if a_level a = Crit then - 1 else 1)"

text \<open>
  \<open>Array.prototype.sort\<close> with a comparator. The comparator above never returns 0 and
  looks only at its first argument, so it is not a consistent comparator, and ECMAScript
  then leaves the order of the result to the implementation. The model follows V8
  (Chrome, Node.js) on an array of fewer than 64 elements: its TimSort takes the first
  run (\<open>CountAndMakeRun\<close>, which compares each element with its predecessor and
  reverses a strictly descending run) and then inserts the remaining elements one at a
  time at the position a binary search gives (\<open>BinaryInsertionSort\<close>). Longer arrays go
  through merges that are not modelled; \<open>alerts\<close> sorts at most ten records.
\<close>

fun run_ext :: "('a \<Rightarrow> 'a \<Rightarrow> int) \<Rightarrow> bool \<Rightarrow> 'a \<Rightarrow> 'a list \<Rightarrow> nat" where
  "run_ext cmp desc prev [] = 0"
| "run_ext cmp desc prev (x # xs) =
     (let order = cmp x prev
      in if (if desc then order \<ge> 0 else order < 0) then 0
         else Suc (run_ext cmp desc x xs))"

fun count_and_make_run :: "('a \<Rightarrow> 'a \<Rightarrow> int) \<Rightarrow> 'a list \<Rightarrow> nat \<times> 'a list" where
  "count_and_make_run cmp (x0 # x1 # xs) =
     (let desc = (cmp x1 x0 < 0);
          n = 2 + run_ext cmp desc x1 xs
      in (n, if desc then rev (take n (x0 # x1 # xs)) @ drop n (x0 # x1 # xs)
             else x0 # x1 # xs))"
| "count_and_make_run cmp xs = (length xs, xs)"

function bsearch :: "('a \<Rightarrow> 'a \<Rightarrow> int) \<Rightarrow> 'a \<Rightarrow> 'a list \<Rightarrow> nat \<Rightarrow> nat \<Rightarrow> nat" where
  "bsearch cmp pivot xs left right =
     (if left < right then
        (let mid = left + (right - left) div 2
         in if cmp pivot (xs ! mid) < 0 then bsearch cmp pivot xs left mid
            else bsearch cmp pivot xs (mid + 1) right)
      else left)"
  by pat_completeness auto

termination
  by (relation "measure (\<lambda>(cmp, pivot, xs, left, right). right - left)") auto

text \<open>
  In \<open>BinaryInsertionSort\<close> the elements before \<open>start\<close> are the sorted prefix
  \<open>pre\<close>; the element at \<open>start\<close> is the pivot, moved to the position found in the
  prefix.
\<close>

fun binary_insertion :: "('a \<Rightarrow> 'a \<Rightarrow> int) \<Rightarrow> 'a list \<Rightarrow> 'a list \<Rightarrow> 'a list" where
  "binary_insertion cmp pre [] = pre"
| "binary_insertion cmp pre (pivot # rest) =
     (let left = bsearch cmp pivot pre 0 (length pre)
      in binary_insertion cmp (take left pre @ [pivot] @ drop left pre) rest)"

definition Array_sort :: "('a \<Rightarrow> 'a \<Rightarrow> int) \<Rightarrow> 'a list \<Rightarrow> 'a list" where
  "Array_sort cmp xs =
     (if length xs < 2 then xs
      else (case count_and_make_run cmp xs of (n, ys) \<Rightarrow>
              binary_insertion cmp (take n ys) (drop n ys)))"

definition alerts :: "thresholds \<Rightarrow> Reading option \<Rightarrow> AlertRecord list" where
  "alerts th latest =
     (case latest of
        None \<Rightarrow> []
      | Some r \<Rightarrow>
          Array_sort alert_cmp
            (filter (\<lambda>a. a_level a \<noteq> Ok)
               (map (\<lambda>k. \<lparr>a_key = k, a_level = classifyAlert th k (param_value k r),
                            a_value = param_value k r\<rparr>) keys)))"

declare bsearch.simps [simp del]

definition is_crit :: "AlertRecord \<Rightarrow> bool" where
  "is_crit a \<longleftrightarrow> a_level a = Crit"

text \<open>Every parameter of a reading with its classification, in enumeration order.\<close>

definition classified :: "thresholds \<Rightarrow> Reading \<Rightarrow> AlertRecord list" where
  "classified th r =
     map (\<lambda>k. \<lparr>a_key = k, a_level = classifyAlert th k (param_value k r),
                a_value = param_value k r\<rparr>) keys"

section \<open>Double-precision arithmetic\<close>

text \<open>
  The values above are exact reals. Where a result turns on rounding, the arithmetic of
  JavaScript numbers is made explicit: \<open>to_double\<close> rounds a real to the nearest
  IEEE-754 double, ties to the even significand (53 significant bits; overflow and
  subnormal numbers, far from the values used here, are not modelled). \<open>binade x\<close> is
  the exponent \<open>e\<close> with \<open>2^e \<le> x < 2^(e+1)\<close> (\<open>binade_bounds\<close> below).
\<close>

text \<open>The number of binary digits of a natural number.\<close>

fun bit_length :: "nat \<Rightarrow> nat" where
  "bit_length n = (if n = 0 then 0 else Suc (bit_length (n div 2)))"

declare bit_length.simps [simp del]

definition binade :: "real \<Rightarrow> int" where
  "binade x =
     (if 1 \<le> x then int (bit_length (nat \<lfloor>x\<rfloor>)) - 1
      else - int (bit_length (nat (\<lceil>1 / x\<rceil> - 1))))"





section \<open>Classification: the decision table and its boundaries\<close>

text \<open>
  C2. For every table, key and value: with direction over the result is critical exactly
  when the value is at least the critical level, warning exactly when it is below the
  critical level and at least the warning level, and ok otherwise; with direction under
  the comparisons are reversed. On the initial table, temperature (over, 20, 24) maps
  19.9 to ok, 20.0 to warning and 24.0 to critical, and dissolved oxygen (under, 6.0, 4.0)
  maps 6.1 to ok, 6.0 to warning and 4.0 to critical.
\<close>

theorem classifyAlert_table:
  "(dir (th key) = Over \<longrightarrow>
      classifyAlert th key v =
        (if v \<ge> crit (th key) then Crit else if v \<ge> warn (th key) then Warn else Ok))
   \<and> (dir (th key) = Under \<longrightarrow>
      classifyAlert th key v =
        (if v \<le> crit (th key) then Crit else if v \<le> warn (th key) then Warn else Ok))
   \<and> classifyAlert THRESHOLDS Temp 19.9 = Ok
   \<and> classifyAlert THRESHOLDS Temp 20.0 = Warn
   \<and> classifyAlert THRESHOLDS Temp 24.0 = Crit
   \<and> classifyAlert THRESHOLDS Do 6.1 = Ok
   \<and> classifyAlert THRESHOLDS Do 6.0 = Warn
   \<and> classifyAlert THRESHOLDS Do 4.0 = Crit"
  by (cases "dir (th key)") (simp_all add: classifyAlert_def)

theorem classifyAlert_table_witness:
  "classifyAlert (THRESHOLDS(Sal := \<lparr>warn = 6, crit = 4, dir = Under\<rparr>)) Sal 5 = Warn
   \<and> classifyAlert (THRESHOLDS(Sal := \<lparr>warn = 20, crit = 24, dir = Over\<rparr>)) Sal 25 = Crit"
  using classifyAlert_table [of "THRESHOLDS(Sal := \<lparr>warn = 6, crit = 4, dir = Under\<rparr>)" Sal 5]
    classifyAlert_table [of "THRESHOLDS(Sal := \<lparr>warn = 20, crit = 24, dir = Over\<rparr>)" Sal 25]
  by simp

text \<open>
  C9. Classification is monotone in the value for every table entry, whatever the order
  of its warning and critical levels: with direction over a larger value never has a
  lower severity, with direction under a larger value never has a higher one.
\<close>

theorem classifyAlert_monotone:
  assumes "v1 \<le> v2"
  shows "(dir (th key) = Over \<longrightarrow>
            rank (classifyAlert th key v1) \<le> rank (classifyAlert th key v2))
       \<and> (dir (th key) = Under \<longrightarrow>
            rank (classifyAlert th key v1) \<ge> rank (classifyAlert th key v2))"
  using assms by (cases "dir (th key)") (auto simp: classifyAlert_def)

theorem classifyAlert_monotone_witness:
  "rank (classifyAlert (THRESHOLDS(Temp := \<lparr>warn = 24, crit = 20, dir = Over\<rparr>)) Temp 19)
     \<le> rank (classifyAlert (THRESHOLDS(Temp := \<lparr>warn = 24, crit = 20, dir = Over\<rparr>)) Temp 22)
   \<and> rank (classifyAlert (THRESHOLDS(Do := \<lparr>warn = 4, crit = 6, dir = Under\<rparr>)) Do 5)
     \<ge> rank (classifyAlert (THRESHOLDS(Do := \<lparr>warn = 4, crit = 6, dir = Under\<rparr>)) Do 7)"
proof -
  have a: "(19::real) \<le> 22" and b: "(5::real) \<le> 7" by simp_all
  show ?thesis
    using classifyAlert_monotone [OF a, of "THRESHOLDS(Temp := \<lparr>warn = 24, crit = 20, dir = Over\<rparr>)" Temp]
      classifyAlert_monotone [OF b, of "THRESHOLDS(Do := \<lparr>warn = 4, crit = 6, dir = Under\<rparr>)" Do]
    by simp
qed

section \<open>The bounded random walk\<close>

lemma randomWalk_eq:
  "randomWalk prev step mn mx g = (max mn (min mx (prev + (shd g - 1 / 2) * step)), stl g)"
  by (simp add: randomWalk_def Math_random_def)

lemma tick_eq:
  "tick prev t g =
     (\<lparr>ts = t,
       temp = max 8 (min 26 (temp prev + (g !! 0 - 1 / 2) * 0.3)),
       sal = max 10 (min 33 (sal prev + (g !! 1 - 1 / 2) * 0.3)),
       ph = max 7.3 (min 8.3 (ph prev + (g !! 2 - 1 / 2) * 0.05)),
       do_mgL = max 1.5 (min 12 (do_mgL prev + (g !! 3 - 1 / 2) * 0.4)),
       turb = max 1 (min 300 (turb prev + (g !! 4 - 1 / 2) * 6)),
       chl = max 0.1 (min 120 (chl prev + (g !! 5 - 1 / 2) * 3)),
       gene_expr = max 0 (min 100 (gene_expr prev + (g !! 6 - 1 / 2) * 4)),
       methyl = max 0 (min 1 (methyl prev + (g !! 7 - 1 / 2) * 0.03)),
       metabo = max 0 (min 100 (metabo prev + (g !! 8 - 1 / 2) * 5)),
       lipid_ox = max 0 (min 1 (lipid_ox prev + (g !! 9 - 1 / 2) * 0.03))\<rparr>,
      sdrop 10 g)"
  by (simp add: tick_def randomWalk_eq eval_nat_numeral)

lemma tick_ts: "ts (fst (tick prev t g)) = t"
  by (simp add: tick_eq)

lemma tick_rng: "snd (tick prev t g) = sdrop 10 g"
  by (simp add: tick_eq)

lemma max_min_range:
  fixes mn mx x :: real
  assumes "mn \<le> mx"
  shows "mn \<le> max mn (min mx x)" and "max mn (min mx x) \<le> mx"
  using assms by auto

lemma max_min_clamp: "mn \<le> mx \<Longrightarrow> max mn (min mx x) = clamp x mn mx"
  by (auto simp: clamp_def)

lemma tick_in_bounds: "in_bounds (fst (tick prev t g))"
  unfolding tick_eq in_bounds_def fst_conv Reading.select_convs
  by (intro conjI; (rule max_min_range(1) | rule max_min_range(2)); simp)

lemma perturb_range:
  assumes "0 \<le> u" "u < 1" "0 < step"
  shows "- (step / 2) \<le> perturb u step" and "perturb u step < step / 2"
proof -
  have "(- (1 / 2)) * step \<le> (u - 1 / 2) * step"
    using assms by (intro mult_right_mono) auto
  then show "- (step / 2) \<le> perturb u step"
    by (simp add: perturb_def)
  have "(u - 1 / 2) * step < (1 / 2) * step"
    using assms by (intro mult_strict_right_mono) auto
  then show "perturb u step < step / 2"
    by (simp add: perturb_def)
qed

lemma ticks_Cons:
  "ticks prev (t # tss) g =
     (fst (tick prev t g) # fst (ticks (fst (tick prev t g)) tss (snd (tick prev t g))),
      snd (ticks (fst (tick prev t g)) tss (snd (tick prev t g))))"
  by (simp add: case_prod_beta)

lemma ticks_in_bounds: "r \<in> set (fst (ticks prev tss g)) \<Longrightarrow> in_bounds r"
  by (induction tss arbitrary: prev g) (auto simp: ticks_Cons tick_in_bounds simp del: ticks.simps(2))

lemma ticks_length: "length (fst (ticks prev tss g)) = length tss"
  by (induction tss arbitrary: prev g) (simp_all add: ticks_Cons del: ticks.simps(2))

lemma ticks_ts: "map ts (fst (ticks prev tss g)) = tss"
  by (induction tss arbitrary: prev g) (simp_all add: ticks_Cons tick_ts del: ticks.simps(2))

text \<open>
  C3. For every previous reading, timestamp and random source, the reading that \<open>tick\<close>
  returns carries the timestamp passed in, each of its ten values is
  \<open>clamp(previous + perturbation, min, max)\<close> for that parameter's step size and range,
  and every value lies in its closed range; the same bounds hold for every reading of
  any chain of \<open>tick\<close> calls. When the draws are in \<open>[0, 1)\<close> the perturbation of a
  step size \<open>s > 0\<close> lies in \<open>[-s/2, s/2)\<close>.
\<close>

theorem tick_clamped_walk:
  "ts (fst (tick prev t g)) = t
   \<and> temp (fst (tick prev t g)) = clamp (temp prev + perturb (g !! 0) 0.3) 8 26
   \<and> sal (fst (tick prev t g)) = clamp (sal prev + perturb (g !! 1) 0.3) 10 33
   \<and> ph (fst (tick prev t g)) = clamp (ph prev + perturb (g !! 2) 0.05) 7.3 8.3
   \<and> do_mgL (fst (tick prev t g)) = clamp (do_mgL prev + perturb (g !! 3) 0.4) 1.5 12
   \<and> turb (fst (tick prev t g)) = clamp (turb prev + perturb (g !! 4) 6) 1 300
   \<and> chl (fst (tick prev t g)) = clamp (chl prev + perturb (g !! 5) 3) 0.1 120
   \<and> gene_expr (fst (tick prev t g)) = clamp (gene_expr prev + perturb (g !! 6) 4) 0 100
   \<and> methyl (fst (tick prev t g)) = clamp (methyl prev + perturb (g !! 7) 0.03) 0 1
   \<and> metabo (fst (tick prev t g)) = clamp (metabo prev + perturb (g !! 8) 5) 0 100
   \<and> lipid_ox (fst (tick prev t g)) = clamp (lipid_ox prev + perturb (g !! 9) 0.03) 0 1
   \<and> in_bounds (fst (tick prev t g))
   \<and> (\<forall>r \<in> set (fst (ticks prev tss g)). in_bounds r)
   \<and> ((\<forall>u \<in> sset g. 0 \<le> u \<and> u < 1) \<longrightarrow>
        (\<forall>i s. 0 < s \<longrightarrow> - (s / 2) \<le> perturb (g !! i) s \<and> perturb (g !! i) s < s / 2))"
proof -
  have fields:
    "temp (fst (tick prev t g)) = clamp (temp prev + perturb (g !! 0) 0.3) 8 26"
    "sal (fst (tick prev t g)) = clamp (sal prev + perturb (g !! 1) 0.3) 10 33"
    "ph (fst (tick prev t g)) = clamp (ph prev + perturb (g !! 2) 0.05) 7.3 8.3"
    "do_mgL (fst (tick prev t g)) = clamp (do_mgL prev + perturb (g !! 3) 0.4) 1.5 12"
    "turb (fst (tick prev t g)) = clamp (turb prev + perturb (g !! 4) 6) 1 300"
    "chl (fst (tick prev t g)) = clamp (chl prev + perturb (g !! 5) 3) 0.1 120"
    "gene_expr (fst (tick prev t g)) = clamp (gene_expr prev + perturb (g !! 6) 4) 0 100"
    "methyl (fst (tick prev t g)) = clamp (methyl prev + perturb (g !! 7) 0.03) 0 1"
    "metabo (fst (tick prev t g)) = clamp (metabo prev + perturb (g !! 8) 5) 0 100"
    "lipid_ox (fst (tick prev t g)) = clamp (lipid_ox prev + perturb (g !! 9) 0.03) 0 1"
    unfolding tick_eq fst_conv Reading.select_convs perturb_def
    by (rule max_min_clamp, simp)+
  have draws: "- (s / 2) \<le> perturb (g !! i) s \<and> perturb (g !! i) s < s / 2"
    if "\<forall>u \<in> sset g. 0 \<le> u \<and> u < 1" and "0 < s" for i s
  proof -
    have "0 \<le> g !! i \<and> g !! i < 1"
      using that(1) snth_sset [of g i] by blast
    then show ?thesis
      using perturb_range [of "g !! i" s] that(2) by simp
  qed
  show ?thesis
    using fields tick_ts [of prev t g] tick_in_bounds [of prev t g]
      ticks_in_bounds [of _ prev tss g] draws
    by blast
qed

theorem tick_clamped_walk_witness:
  "temp (fst (tick \<lparr>ts = 0, temp = 25.9, sal = 30, ph = 8, do_mgL = 8, turb = 20, chl = 5,
       gene_expr = 30, methyl = 0.45, metabo = 30, lipid_ox = 0.3\<rparr> 5 (sconst 0.9))) = 26
   \<and> - (0.3 / 2) \<le> perturb (sconst 0.9 !! 0) 0.3
   \<and> perturb (sconst 0.9 !! 0) 0.3 < 0.3 / 2
   \<and> in_bounds (fst (tick \<lparr>ts = 0, temp = 25.9, sal = 30, ph = 8, do_mgL = 8, turb = 20,
       chl = 5, gene_expr = 30, methyl = 0.45, metabo = 30, lipid_ox = 0.3\<rparr> 5 (sconst 0.9)))
   \<and> in_bounds (hd (fst (ticks \<lparr>ts = 0, temp = 25.9, sal = 30, ph = 8, do_mgL = 8, turb = 20,
       chl = 5, gene_expr = 30, methyl = 0.45, metabo = 30, lipid_ox = 0.3\<rparr> [5, 6] (sconst 0.9))))"
proof -
  let ?r = "\<lparr>ts = 0, temp = 25.9, sal = 30, ph = 8, do_mgL = 8, turb = 20, chl = 5,
       gene_expr = 30, methyl = 0.45, metabo = 30, lipid_ox = 0.3\<rparr>"
  note T = tick_clamped_walk [of ?r 5 "sconst 0.9" "[5, 6]"]
  note T2 = T [THEN conjunct2, THEN conjunct2, THEN conjunct2, THEN conjunct2,
      THEN conjunct2, THEN conjunct2, THEN conjunct2, THEN conjunct2, THEN conjunct2,
      THEN conjunct2, THEN conjunct2]
  have u: "\<forall>u \<in> sset (sconst (0.9::real)). 0 \<le> u \<and> u < 1"
    by simp
  have m: "hd (fst (ticks ?r [5, 6] (sconst 0.9))) \<in> set (fst (ticks ?r [5, 6] (sconst 0.9)))"
    by (simp add: ticks_Cons del: ticks.simps(2))
  have "temp (fst (tick ?r 5 (sconst 0.9))) = clamp (temp ?r + perturb (sconst 0.9 !! 0) 0.3) 8 26"
    by (rule T [THEN conjunct2, THEN conjunct1])
  also have "\<dots> = 26"
    by (simp add: clamp_def perturb_def)
  finally have a: "temp (fst (tick ?r 5 (sconst 0.9))) = 26" .
  have b: "in_bounds (fst (tick ?r 5 (sconst 0.9)))"
    by (rule T2 [THEN conjunct1])
  have c: "in_bounds (hd (fst (ticks ?r [5, 6] (sconst 0.9))))"
    using T2 [THEN conjunct2, THEN conjunct1] m by blast
  have d: "- (0.3 / 2) \<le> perturb (sconst 0.9 !! 0) 0.3 \<and> perturb (sconst 0.9 !! 0) 0.3 < 0.3 / 2"
    using T2 [THEN conjunct2, THEN conjunct2, THEN mp, OF u, THEN spec, of 0, THEN spec, of "0.3"]
    by simp
  show ?thesis
    using a b c d by blast
qed

section \<open>The seeded history\<close>

lemma stamps_done: "\<not> t \<le> now \<Longrightarrow> stamps t now = []"
  by (simp add: stamps_def)

lemma stamps_step:
  assumes "t \<le> now"
  shows "stamps t now = t # stamps (t + 300000) now"
proof -
  let ?n = "if t + 300000 \<le> now then nat ((now - (t + 300000)) div 300000 + 1) else 0"
  have n: "nat ((now - t) div 300000 + 1) = Suc ?n"
  proof (cases "t + 300000 \<le> now")
    case True
    have "(now - (t + 300000) + 300000) div 300000 = (now - (t + 300000)) div 300000 + 1"
      by (rule div_add_self2) simp
    then have "(now - t) div 300000 = (now - (t + 300000)) div 300000 + 1"
      by (simp add: algebra_simps)
    moreover have "0 \<le> (now - (t + 300000)) div 300000"
      using True by simp
    ultimately show ?thesis
      using True by simp
  next
    case False
    then have "(now - t) div 300000 = 0"
      using assms by simp
    then show ?thesis
      using False by simp
  qed
  have "map (\<lambda>k. t + 300000 * int k) [0..<Suc ?n]
      = t # map (\<lambda>k. t + 300000 + 300000 * int k) [0..<?n]"
    by (simp add: upt_conv_Cons map_Suc_upt [symmetric] algebra_simps del: upt_Suc)
  then show ?thesis
    using assms n by (simp add: stamps_def del: upt_Suc)
qed

lemma seed_loop_ticks:
  "seed_loop t now r rows g =
     (rows @ fst (ticks r (stamps t now) g), snd (ticks r (stamps t now) g))"
proof (induction t now r rows g rule: seed_loop.induct)
  case (1 t now r rows g)
  show ?case
  proof (cases "t \<le> now")
    case False
    then show ?thesis
      by (simp add: stamps_done)
  next
    case True
    obtain r' g' where tk: "tick r t g = (r', g')"
      by (cases "tick r t g")
    have "seed_loop t now r rows g = seed_loop (t + 300000) now r' (rows @ [r']) g'"
      using True tk by simp
    also have "\<dots> = ((rows @ [r']) @ fst (ticks r' (stamps (t + 300000) now) g'),
        snd (ticks r' (stamps (t + 300000) now) g'))"
      using "1.IH" [OF True tk [symmetric]] .
    also have "\<dots> = (rows @ fst (ticks r (stamps t now) g), snd (ticks r (stamps t now) g))"
      using tk by (simp add: stamps_step [OF True] ticks_Cons del: ticks.simps(2))
    finally show ?thesis .
  qed
qed

lemma stamps_seed: "stamps (now - 3 * 3600000) now = map (\<lambda>k. now - 10800000 + 300000 * int k) [0..<37]"
proof -
  have d: "now - 3 * 3600000 = now - 10800000"
    by simp
  have n: "(if now - 10800000 \<le> now then nat ((now - (now - 10800000)) div 300000 + 1) else 0) = 37"
    by simp
  show ?thesis
    unfolding stamps_def d n ..
qed

lemma seedSite_ts:
  "map ts (fst (seedSite now g)) = map (\<lambda>k. now - 10800000 + 300000 * int k) [0..<37]"
proof -
  have "fst (seedSite now g)
      = fst (ticks (fst (generateSeeded (now - 3 * 3600000) g)) (stamps (now - 3 * 3600000) now)
          (snd (generateSeeded (now - 3 * 3600000) g)))"
    unfolding seedSite_def case_prod_beta seed_loop_ticks by simp
  then show ?thesis
    unfolding stamps_seed by (simp only: ticks_ts)
qed

lemma seedSite_length: "length (fst (seedSite now g)) = 37"
proof -
  have "length (map ts (fst (seedSite now g))) = length [0..<37::nat]"
    unfolding seedSite_ts by (simp only: length_map)
  then show ?thesis by simp
qed

lemma sorted_stamps: "sorted_wrt (<) (map (\<lambda>k. (a::int) + 300000 * int k) [0..<n])"
  by (simp add: sorted_wrt_map sorted_wrt_iff_nth_less)

lemma seedSite_increasing: "sorted_wrt (<) (map ts (fst (seedSite now g)))"
  unfolding seedSite_ts by (rule sorted_stamps)

lemma seed_sites_other:
  "sid \<notin> site_id ` set sites \<Longrightarrow> fst (seed_sites sites seed c g) sid = seed sid"
  by (induction sites arbitrary: seed c g) (auto simp: case_prod_beta)

lemma seed_sites_seeded:
  "sid \<in> site_id ` set sites \<Longrightarrow>
     \<exists>now g'. fst (seed_sites sites seed c g) sid = Some (fst (seedSite now g'))"
proof (induction sites arbitrary: seed c g)
  case Nil
  then show ?case by simp
next
  case (Cons site rest)
  show ?case
  proof (cases "sid \<in> site_id ` set rest")
    case True
    then show ?thesis
      using Cons.IH by (simp add: case_prod_beta)
  next
    case False
    then have "sid = site_id site"
      using Cons.prems by auto
    then have "fst (seed_sites (site # rest) seed c g) sid
        = Some (fst (seedSite (fst (Date_now c)) g))"
      using False by (simp add: case_prod_beta seed_sites_other)
    then show ?thesis
      by blast
  qed
qed

text \<open>
  C5. For every start time and random source the seeded history of a site has exactly 37
  readings, their timestamps are \<open>now - 3h + k * 5min\<close> for \<open>k = 0, \<dots>, 36\<close>, hence
  strictly increasing; and after the seeding effect every site of \<open>SITES\<close> holds such a
  history.
\<close>

theorem seeded_history:
  "length (fst (seedSite now g)) = 37
   \<and> map ts (fst (seedSite now g)) = map (\<lambda>k. now - 10800000 + 300000 * int k) [0..<37]
   \<and> sorted_wrt (<) (map ts (fst (seedSite now g)))
   \<and> (site \<in> set SITES \<longrightarrow>
        (\<exists>rows. fst (seedEffect c g) (site_id site) = Some rows
           \<and> length rows = 37 \<and> sorted_wrt (<) (map ts rows)))"
proof -
  have "\<exists>rows. fst (seedEffect c g) (site_id site) = Some rows
           \<and> length rows = 37 \<and> sorted_wrt (<) (map ts rows)"
    if "site \<in> set SITES"
  proof -
    have "site_id site \<in> site_id ` set SITES"
      using that by simp
    then obtain now' g' where
      "fst (seed_sites SITES Map.empty c g) (site_id site) = Some (fst (seedSite now' g'))"
      using seed_sites_seeded by blast
    then show ?thesis
      using seedSite_length [of now' g'] seedSite_increasing [of now' g']
      by (simp add: seedEffect_def)
  qed
  then show ?thesis
    using seedSite_length [of now g] seedSite_ts [of now g] seedSite_increasing [of now g]
    by blast
qed

theorem seeded_history_witness:
  "length (fst (seedSite 1700000000000 (sconst 0.5))) = 37
   \<and> (\<exists>rows. fst (seedEffect (sconst 1700000000000) (sconst 0.5)) ''PS-ALKI'' = Some rows
        \<and> length rows = 37 \<and> sorted_wrt (<) (map ts rows))"
proof -
  have a: "SITES ! 1 \<in> set SITES"
    by (simp add: SITES_def)
  have b: "site_id (SITES ! 1) = ''PS-ALKI''"
    by (simp add: SITES_def)
  note T = seeded_history [of 1700000000000 "sconst 0.5" "SITES ! 1" "sconst 1700000000000"]
  have "length (fst (seedSite 1700000000000 (sconst 0.5))) = 37"
    by (rule T [THEN conjunct1])
  moreover have "\<exists>rows. fst (seedEffect (sconst 1700000000000) (sconst 0.5)) (site_id (SITES ! 1)) = Some rows
        \<and> length rows = 37 \<and> sorted_wrt (<) (map ts rows)"
    by (rule T [THEN conjunct2, THEN conjunct2, THEN conjunct2, THEN mp, OF a])
  ultimately show ?thesis
    unfolding b by (rule conjI)
qed

section \<open>The rolling window\<close>

lemma advance_sites_Cons:
  "advance_sites (site # rest) now copy g =
     advance_sites rest now
       (copy(site_id site \<mapsto> fst (site_step (lookup_series copy (site_id site)) now g)))
       (snd (site_step (lookup_series copy (site_id site)) now g))"
  by (simp add: site_step_def lookup_series_def case_prod_beta Let_def)

lemma slice_last_length: "length (slice_last n arr) = min (length arr) n"
  by (simp add: slice_last_def)

lemma slice_last_short: "length arr \<le> n \<Longrightarrow> slice_last n arr = arr"
  by (simp add: slice_last_def)

lemma slice_last_long: "n \<le> length arr \<Longrightarrow> slice_last n arr = drop (length arr - n) arr"
  by (simp add: slice_last_def nat_diff_distrib')

lemma site_step_length: "length (fst (site_step arr now g)) = min (length arr) 240 + 1"
  by (simp add: site_step_def case_prod_beta slice_last_length)

lemma site_step_butlast: "butlast (fst (site_step arr now g)) = slice_last 240 arr"
  by (simp add: site_step_def case_prod_beta)

lemma advance_sites_other:
  "sid \<notin> site_id ` set sites \<Longrightarrow> fst (advance_sites sites now copy g) sid = copy sid"
  by (induction sites arbitrary: copy g) (auto simp: advance_sites_Cons simp del: advance_sites.simps(2))

lemma advance_sites_at:
  "distinct (map site_id sites) \<Longrightarrow> sid \<in> site_id ` set sites \<Longrightarrow>
     \<exists>g1. fst (advance_sites sites now copy g) sid
             = Some (fst (site_step (lookup_series copy sid) now g1))"
proof (induction sites arbitrary: copy g)
  case Nil
  then show ?case by simp
next
  case (Cons site rest)
  let ?copy = "copy(site_id site \<mapsto> fst (site_step (lookup_series copy (site_id site)) now g))"
  let ?g = "snd (site_step (lookup_series copy (site_id site)) now g)"
  show ?case
  proof (cases "sid = site_id site")
    case True
    then have "sid \<notin> site_id ` set rest"
      using Cons.prems(1) by auto
    then have "fst (advance_sites (site # rest) now copy g) sid = ?copy sid"
      unfolding advance_sites_Cons by (rule advance_sites_other)
    then show ?thesis
      using True by auto
  next
    case False
    then have "sid \<in> site_id ` set rest" and "distinct (map site_id rest)"
      using Cons.prems by auto
    then obtain g1 where
      "fst (advance_sites rest now ?copy ?g) sid = Some (fst (site_step (lookup_series ?copy sid) now g1))"
      using Cons.IH by blast
    moreover have "lookup_series ?copy sid = lookup_series copy sid"
      using False by (simp add: lookup_series_def)
    ultimately show ?thesis
      unfolding advance_sites_Cons by auto
  qed
qed

lemma SITES_distinct: "distinct (map site_id SITES)"
  by (simp add: SITES_def)

lemma advance_length:
  assumes "site \<in> set SITES"
  shows "\<exists>rows. fst (advance prev c g) (site_id site) = Some rows
            \<and> length rows = min (length (lookup_series prev (site_id site))) 240 + 1
            \<and> butlast rows = slice_last 240 (lookup_series prev (site_id site))"
proof -
  have "site_id site \<in> site_id ` set SITES"
    using assms by simp
  then obtain g1 where
    "fst (advance_sites SITES (fst (Date_now c)) prev g) (site_id site)
       = Some (fst (site_step (lookup_series prev (site_id site)) (fst (Date_now c)) g1))"
    using advance_sites_at [OF SITES_distinct] by blast
  then show ?thesis
    by (simp add: advance_def case_prod_beta site_step_length site_step_butlast)
qed

lemma seedEffect_length:
  assumes "site \<in> set SITES"
  shows "\<exists>rows. fst (seedEffect c g) (site_id site) = Some rows \<and> length rows = 37"
proof -
  have "site_id site \<in> site_id ` set SITES"
    using assms by simp
  then obtain now' g' where
    "fst (seed_sites SITES Map.empty c g) (site_id site) = Some (fst (seedSite now' g'))"
    using seed_sites_seeded by blast
  then show ?thesis
    using seedSite_length [of now' g'] by (simp add: seedEffect_def)
qed

lemma run_length:
  assumes "site \<in> set SITES"
  shows "\<exists>rows. fst (run n c g) (site_id site) = Some rows \<and> length rows = min (37 + n) 241"
proof (induction n)
  case 0
  show ?case
    using seedEffect_length [OF assms, of c g] by simp
next
  case (Suc n)
  then obtain old where old: "fst (run n c g) (site_id site) = Some old"
    and len: "length old = min (37 + n) 241"
    by blast
  obtain m c' g' where r: "run n c g = (m, c', g')"
    by (cases "run n c g")
  have m: "lookup_series m (site_id site) = old"
    using old r by (simp add: lookup_series_def)
  obtain rows where "fst (advance m c' g') (site_id site) = Some rows"
    and "length rows = min (length (lookup_series m (site_id site))) 240 + 1"
    using advance_length [OF assms, of m c' g'] by blast
  then show ?case
    using r m len by auto
qed

lemma advance_at_cap:
  assumes "site \<in> set SITES" and "prev (site_id site) = Some old" and "length old = 241"
  shows "\<exists>rows. fst (advance prev c g) (site_id site) = Some rows
            \<and> length rows = 241 \<and> butlast rows = tl old"
proof -
  have l: "lookup_series prev (site_id site) = old"
    using assms(2) by (simp add: lookup_series_def)
  have "slice_last 240 old = drop 1 old"
    using assms(3) by (simp add: slice_last_long)
  then have "slice_last 240 old = tl old"
    by (simp add: drop_Suc)
  then show ?thesis
    using advance_length [OF assms(1), of prev c g] l assms(3) by auto
qed

text \<open>
  C1 (as amended). After the seeding effect and any number \<open>n\<close> of interval firings,
  the series of every site of \<open>SITES\<close> has \<open>min (37 + n) 241\<close> readings, so never more
  than 241: one firing keeps at most the last 240 readings of the previous series and
  appends one new reading, and once a series has 241 readings each firing drops exactly
  its oldest reading.
\<close>

theorem series_window:
  assumes "site \<in> set SITES"
  shows "(\<exists>rows. fst (run n c g) (site_id site) = Some rows
            \<and> length rows = min (37 + n) 241 \<and> length rows \<le> 241)
       \<and> (\<exists>rows. fst (advance prev c g) (site_id site) = Some rows
            \<and> butlast rows = slice_last 240 (lookup_series prev (site_id site))
            \<and> length rows = min (length (lookup_series prev (site_id site))) 240 + 1)
       \<and> (\<forall>old. prev (site_id site) = Some old \<and> length old = 241 \<longrightarrow>
            (\<exists>rows. fst (advance prev c g) (site_id site) = Some rows
               \<and> length rows = 241 \<and> butlast rows = tl old))"
proof -
  have a: "\<exists>rows. fst (run n c g) (site_id site) = Some rows
            \<and> length rows = min (37 + n) 241 \<and> length rows \<le> 241"
    using run_length [OF assms, of n c g] by auto
  have b: "\<exists>rows. fst (advance prev c g) (site_id site) = Some rows
            \<and> butlast rows = slice_last 240 (lookup_series prev (site_id site))
            \<and> length rows = min (length (lookup_series prev (site_id site))) 240 + 1"
    using advance_length [OF assms, of prev c g] by blast
  have c: "\<forall>old. prev (site_id site) = Some old \<and> length old = 241 \<longrightarrow>
            (\<exists>rows. fst (advance prev c g) (site_id site) = Some rows
               \<and> length rows = 241 \<and> butlast rows = tl old)"
    using advance_at_cap [OF assms, of prev _ c g] by blast
  show ?thesis
    using a b c by (intro conjI)
qed

theorem series_window_witness:
  "(\<exists>rows. fst (run 500 (sconst 0) (sconst (1 / 2))) ''PS-SKAGIT'' = Some rows
      \<and> length rows = 241)
   \<and> (\<exists>rows. fst (advance Map.empty (sconst 0) (sconst (1 / 2))) ''PS-SKAGIT'' = Some rows
      \<and> length rows = 1)
   \<and> (\<exists>rows. fst (advance
           [''PS-SKAGIT'' \<mapsto> map (\<lambda>k. \<lparr>ts = int k, temp = 18, sal = 30, ph = 8, do_mgL = 8,
              turb = 20, chl = 5, gene_expr = 30, methyl = 0.45, metabo = 30,
              lipid_ox = 0.3\<rparr>) [0..<241]]
           (sconst 1000) (sconst (1 / 2))) ''PS-SKAGIT'' = Some rows
      \<and> length rows = 241 \<and> map ts (butlast rows) = map int [1..<241])"
proof -
  let ?old = "map (\<lambda>k. \<lparr>ts = int k, temp = 18, sal = 30, ph = 8, do_mgL = 8,
              turb = 20, chl = 5, gene_expr = 30, methyl = 0.45, metabo = 30,
              lipid_ox = 0.3\<rparr>) [0..<241]"
  have a: "SITES ! 3 \<in> set SITES"
    by (simp add: SITES_def)
  have b: "site_id (SITES ! 3) = ''PS-SKAGIT''"
    by (simp add: SITES_def)
  note T = series_window [OF a, of 500 "sconst 0" "sconst (1 / 2)" Map.empty]
  note U = series_window [OF a, of 0 "sconst 1000" "sconst (1 / 2)" "[''PS-SKAGIT'' \<mapsto> ?old]"]
  have "\<exists>rows. fst (run 500 (sconst 0) (sconst (1 / 2))) ''PS-SKAGIT'' = Some rows
      \<and> length rows = 241"
    using T [THEN conjunct1] unfolding b by auto
  moreover have "\<exists>rows. fst (advance Map.empty (sconst 0) (sconst (1 / 2))) ''PS-SKAGIT'' = Some rows
      \<and> length rows = 1"
    using T [THEN conjunct2, THEN conjunct1] unfolding b by (auto simp: lookup_series_def)
  moreover have "\<exists>rows. fst (advance [''PS-SKAGIT'' \<mapsto> ?old] (sconst 1000) (sconst (1 / 2))) ''PS-SKAGIT''
        = Some rows \<and> length rows = 241 \<and> map ts (butlast rows) = map int [1..<241]"
  proof -
    have l: "length ?old = 241"
      by (simp only: length_map length_upt)
    have "[''PS-SKAGIT'' \<mapsto> ?old] ''PS-SKAGIT'' = Some ?old \<and> length ?old = 241"
      using l by simp
    then obtain rows where r: "fst (advance [''PS-SKAGIT'' \<mapsto> ?old] (sconst 1000) (sconst (1 / 2))) ''PS-SKAGIT''
        = Some rows" "length rows = 241" "butlast rows = tl ?old"
      using U [THEN conjunct2, THEN conjunct2, THEN spec, of ?old] unfolding b by blast
    have "map ts (tl ?old) = map int [1..<241]"
      by (simp only: map_tl [symmetric] list.map_comp comp_def Reading.select_convs tl_upt)
        (simp del: upt_Suc)
    then show ?thesis
      using r by auto
  qed
  ultimately show ?thesis
    by (intro conjI)
qed

text \<open>
  C1 as the spec states it (at most 240 readings) fails: 204 firings after the seeding
  effect leave 241 readings in a site's series.
\<close>

theorem window_exceeds_240:
  "map_option length
     (fst (run 204 (siterate (\<lambda>t. t + 5000) 1700000000000) (sconst (1 / 2))) ''PS-EDMONDS'')
   = Some 241"
proof -
  have a: "SITES ! 0 \<in> set SITES"
    by (simp add: SITES_def)
  have b: "site_id (SITES ! 0) = ''PS-EDMONDS''"
    by (simp add: SITES_def)
  show ?thesis
    using run_length [OF a, of 204 "siterate (\<lambda>t. t + 5000) 1700000000000" "sconst (1 / 2)"]
    unfolding b by auto
qed

section \<open>Independence of the sites\<close>

lemma generateSeeded_eq:
  "generateSeeded start g =
     (\<lparr>ts = start,
       temp = 16 + g !! 0 * 4,
       sal = 28 + g !! 1 * 3,
       ph = 7.8 + g !! 2 * 0.2,
       do_mgL = 7 + g !! 3 * 2,
       turb = 10 + g !! 4 * 25,
       chl = 3 + g !! 5 * 10,
       gene_expr = 20 + g !! 6 * 20,
       methyl = 0.4 + g !! 7 * 0.1,
       metabo = 20 + g !! 8 * 20,
       lipid_ox = 0.25 + g !! 9 * 0.1\<rparr>,
      sdrop 10 g)"
  by (simp add: generateSeeded_def Math_random_def eval_nat_numeral)

lemma generateSeeded_rng: "snd (generateSeeded t g) = sdrop 10 g"
  by (simp add: generateSeeded_def Math_random_def eval_nat_numeral)

lemma site_step_rng: "snd (site_step arr now g) = sdrop (draws_used arr) g"
proof (cases "arr = []")
  case True
  then have "snd (site_step arr now g) = sdrop 10 (sdrop 10 g)"
    by (simp add: site_step_def case_prod_beta tick_rng generateSeeded_rng)
  then show ?thesis
    using True by (simp add: draws_used_def)
next
  case False
  then show ?thesis
    by (simp add: site_step_def case_prod_beta tick_rng draws_used_def)
qed

lemma draws_before_upd:
  "key \<notin> site_id ` set sites \<Longrightarrow>
     draws_before sites (copy(key \<mapsto> v)) sid = draws_before sites copy sid"
  by (induction sites) (auto simp: lookup_series_def)

lemma draws_before_cong:
  "(\<And>s. s \<in> set sites \<Longrightarrow>
      (lookup_series copy (site_id s) = []) = (lookup_series copy' (site_id s) = [])) \<Longrightarrow>
   draws_before sites copy sid = draws_before sites copy' sid"
  by (induction sites) (auto simp: draws_used_def)

lemma advance_sites_exact:
  "distinct (map site_id sites) \<Longrightarrow> sid \<in> site_id ` set sites \<Longrightarrow>
     fst (advance_sites sites now copy g) sid
       = Some (fst (site_step (lookup_series copy sid) now (sdrop (draws_before sites copy sid) g)))"
proof (induction sites arbitrary: copy g)
  case Nil
  then show ?case by simp
next
  case (Cons site rest)
  let ?copy = "copy(site_id site \<mapsto> fst (site_step (lookup_series copy (site_id site)) now g))"
  let ?g = "snd (site_step (lookup_series copy (site_id site)) now g)"
  show ?case
  proof (cases "sid = site_id site")
    case True
    then have "sid \<notin> site_id ` set rest"
      using Cons.prems(1) by auto
    then have "fst (advance_sites (site # rest) now copy g) sid = ?copy sid"
      unfolding advance_sites_Cons by (rule advance_sites_other)
    then show ?thesis
      using True by simp
  next
    case False
    then have in_rest: "sid \<in> site_id ` set rest" and dist: "distinct (map site_id rest)"
      and fresh: "site_id site \<notin> site_id ` set rest"
      using Cons.prems by auto
    have "fst (advance_sites rest now ?copy ?g) sid
        = Some (fst (site_step (lookup_series ?copy sid) now (sdrop (draws_before rest ?copy sid) ?g)))"
      using Cons.IH [OF dist in_rest] .
    moreover have "lookup_series ?copy sid = lookup_series copy sid"
      using False by (simp add: lookup_series_def)
    moreover have "draws_before rest ?copy sid = draws_before rest copy sid"
      using fresh by (rule draws_before_upd)
    moreover have "sdrop (draws_before rest copy sid) ?g
        = sdrop (draws_before (site # rest) copy sid) g"
      using False by (simp add: site_step_rng)
    ultimately show ?thesis
      unfolding advance_sites_Cons by simp
  qed
qed

lemma advance_exact:
  "fst (advance prev c g) sid =
     (if sid \<in> site_id ` set SITES
      then Some (fst (site_step (lookup_series prev sid) (shd c)
                   (sdrop (draws_before SITES prev sid) g)))
      else prev sid)"
  by (simp add: advance_def case_prod_beta Date_now_def advance_sites_other
      advance_sites_exact [OF SITES_distinct])

lemma set_stake_sset: "set (stake n s) \<subseteq> sset s"
proof (induction n arbitrary: s)
  case 0
  show ?case by simp
next
  case (Suc n)
  have "sset (stl s) \<subseteq> sset s"
    by (cases s) auto
  then show ?case
    using Suc [of "stl s"] by (auto simp: shd_sset)
qed

lemma sset_sdrop_sub: "sset (sdrop n s) \<subseteq> sset s"
proof (induction n arbitrary: s)
  case 0
  show ?case by simp
next
  case (Suc n)
  have "sset (stl s) \<subseteq> sset s"
    by (cases s) auto
  then show ?case
    using Suc [of "stl s"] by auto
qed

lemma lookup_series_upd_other: "A \<noteq> B \<Longrightarrow> lookup_series (prev(A \<mapsto> xs)) B = lookup_series prev B"
  by (simp add: lookup_series_def)

text \<open>
  C7 (as amended). Let \<open>A\<close> and \<open>B\<close> be distinct site ids and replace the series of
  \<open>A\<close> by any \<open>xs\<close>. One firing of the interval gives \<open>B\<close> a series of the same
  length and with the same readings before the appended one. The whole series of \<open>B\<close>
  is the same when \<open>A\<close>'s series is empty (or missing) in both cases or in neither.
  In every case \<open>B\<close>'s new series is computed from \<open>B\<close>'s previous series, the clock
  and the draws of the shared random source from \<open>B\<close>'s position on, a position that
  moves by ten draws for every empty series before \<open>B\<close> in \<open>SITES\<close>; so each outcome
  for \<open>B\<close> is reached with the other series of \<open>A\<close> under a source made of the same
  draws. An id that is not in \<open>SITES\<close> keeps its entry.
\<close>

theorem advance_site_independent:
  assumes "A \<noteq> B"
  shows "map_option length (fst (advance (prev(A \<mapsto> xs)) c g) B)
           = map_option length (fst (advance prev c g) B)
       \<and> map_option butlast (fst (advance (prev(A \<mapsto> xs)) c g) B)
           = map_option butlast (fst (advance prev c g) B)
       \<and> ((xs = []) = (lookup_series prev A = []) \<longrightarrow>
            fst (advance (prev(A \<mapsto> xs)) c g) B = fst (advance prev c g) B)
       \<and> (\<exists>g'. sset g' \<subseteq> sset g
            \<and> fst (advance (prev(A \<mapsto> xs)) c g') B = fst (advance prev c g) B)
       \<and> (B \<in> site_id ` set SITES \<longrightarrow>
            fst (advance prev c g) B
              = Some (fst (site_step (lookup_series prev B) (shd c)
                       (sdrop (draws_before SITES prev B) g))))
       \<and> (B \<notin> site_id ` set SITES \<longrightarrow> fst (advance prev c g) B = prev B)"
proof -
  let ?prev = "prev(A \<mapsto> xs)"
  let ?k = "draws_before SITES prev B"
  let ?k' = "draws_before SITES ?prev B"
  have lk: "lookup_series ?prev B = lookup_series prev B"
    using assms by (rule lookup_series_upd_other)
  have len: "map_option length (fst (advance ?prev c g) B)
           = map_option length (fst (advance prev c g) B)"
    using assms by (simp add: advance_exact lk site_step_length)
  have hist: "map_option butlast (fst (advance ?prev c g) B)
           = map_option butlast (fst (advance prev c g) B)"
    using assms by (simp add: advance_exact lk site_step_butlast)
  have same: "(xs = []) = (lookup_series prev A = []) \<longrightarrow>
      fst (advance ?prev c g) B = fst (advance prev c g) B"
  proof (rule impI)
    assume e: "(xs = []) = (lookup_series prev A = [])"
    have "(lookup_series ?prev (site_id s) = []) = (lookup_series prev (site_id s) = [])" for s
      using e by (cases "site_id s = A") (simp_all add: lookup_series_def)
    then have "?k' = ?k"
      by (intro draws_before_cong)
    then show "fst (advance ?prev c g) B = fst (advance prev c g) B"
      using assms by (simp add: advance_exact lk)
  qed
  have poss: "\<exists>g'. sset g' \<subseteq> sset g \<and> fst (advance ?prev c g') B = fst (advance prev c g) B"
  proof -
    let ?g' = "stake ?k' g @- sdrop ?k g"
    have "sdrop ?k' ?g' = sdrop ?k g"
      by (simp add: sdrop_shift)
    then have "fst (advance ?prev c ?g') B = fst (advance prev c g) B"
      using assms by (simp add: advance_exact lk)
    moreover have "sset ?g' \<subseteq> sset g"
      using set_stake_sset [of ?k' g] sset_sdrop_sub [of ?k g] by simp
    ultimately show ?thesis
      by blast
  qed
  have own: "B \<in> site_id ` set SITES \<longrightarrow>
            fst (advance prev c g) B
              = Some (fst (site_step (lookup_series prev B) (shd c) (sdrop ?k g)))"
    by (simp add: advance_exact)
  have frame: "B \<notin> site_id ` set SITES \<longrightarrow> fst (advance prev c g) B = prev B"
    by (simp add: advance_exact)
  show ?thesis
    by (intro conjI len hist same poss own frame)
qed

theorem advance_site_independent_witness:
  "fst (advance
      ([''PS-EDMONDS'' \<mapsto> [\<lparr>ts = 0, temp = 18, sal = 30, ph = 8, do_mgL = 8, turb = 20,
          chl = 5, gene_expr = 30, methyl = 0.45, metabo = 30, lipid_ox = 0.3\<rparr>]]
         (''PS-EDMONDS'' \<mapsto> [\<lparr>ts = 7, temp = 9, sal = 11, ph = 7.5, do_mgL = 2, turb = 250,
          chl = 100, gene_expr = 90, methyl = 0.9, metabo = 90, lipid_ox = 0.9\<rparr>]))
      (sconst 5000) (replicate 20 0 @- sconst (1 / 2))) ''PS-ALKI''
     = fst (advance
        [''PS-EDMONDS'' \<mapsto> [\<lparr>ts = 0, temp = 18, sal = 30, ph = 8, do_mgL = 8, turb = 20,
           chl = 5, gene_expr = 30, methyl = 0.45, metabo = 30, lipid_ox = 0.3\<rparr>]]
        (sconst 5000) (replicate 20 0 @- sconst (1 / 2))) ''PS-ALKI''
   \<and> fst (advance
        [''PS-EDMONDS'' \<mapsto> [\<lparr>ts = 0, temp = 18, sal = 30, ph = 8, do_mgL = 8, turb = 20,
           chl = 5, gene_expr = 30, methyl = 0.45, metabo = 30, lipid_ox = 0.3\<rparr>]]
        (sconst 5000) (replicate 20 0 @- sconst (1 / 2))) ''PS-ALKI''
     = Some (fst (site_step [] 5000 (sdrop 10 (replicate 20 0 @- sconst (1 / 2)))))"
proof -
  let ?g = "replicate 20 (0::real) @- sconst (1 / 2)"
  let ?r = "\<lparr>ts = 0, temp = 18, sal = 30, ph = 8, do_mgL = 8, turb = 20,
           chl = 5, gene_expr = 30, methyl = 0.45, metabo = 30, lipid_ox = 0.3\<rparr>"
  let ?r' = "\<lparr>ts = 7, temp = 9, sal = 11, ph = 7.5, do_mgL = 2, turb = 250,
          chl = 100, gene_expr = 90, methyl = 0.9, metabo = 90, lipid_ox = 0.9\<rparr>"
  have ne: "''PS-EDMONDS'' \<noteq> ''PS-ALKI''"
    by simp
  have e: "([?r'] = []) = (lookup_series [''PS-EDMONDS'' \<mapsto> [?r]] ''PS-EDMONDS'' = [])"
    by (simp add: lookup_series_def)
  have m: "''PS-ALKI'' \<in> site_id ` set SITES"
    by (simp add: SITES_def)
  have k: "draws_before SITES [''PS-EDMONDS'' \<mapsto> [?r]] ''PS-ALKI'' = 10"
    by (simp add: SITES_def lookup_series_def draws_used_def)
  have l: "lookup_series [''PS-EDMONDS'' \<mapsto> [?r]] ''PS-ALKI'' = []"
    by (simp add: lookup_series_def)
  have c: "shd (sconst (5000::int)) = 5000"
    by simp
  note T = advance_site_independent [OF ne, of "[''PS-EDMONDS'' \<mapsto> [?r]]" "[?r']" "sconst 5000" ?g]
  have a: "fst (advance ([''PS-EDMONDS'' \<mapsto> [?r]](''PS-EDMONDS'' \<mapsto> [?r'])) (sconst 5000) ?g) ''PS-ALKI''
     = fst (advance [''PS-EDMONDS'' \<mapsto> [?r]] (sconst 5000) ?g) ''PS-ALKI''"
    using T [THEN conjunct2, THEN conjunct2, THEN conjunct1, THEN mp, OF e] .
  have b: "fst (advance [''PS-EDMONDS'' \<mapsto> [?r]] (sconst 5000) ?g) ''PS-ALKI''
     = Some (fst (site_step [] 5000 (sdrop 10 ?g)))"
    using T [THEN conjunct2, THEN conjunct2, THEN conjunct2, THEN conjunct2, THEN conjunct1,
        THEN mp, OF m]
    unfolding k l c .
  show ?thesis
    using a b by (rule conjI)
qed

lemma site_step_empty_temp:
  "temp (last (fst (site_step [] now g)))
     = max 8 (min 26 (16 + g !! 0 * 4 + (g !! 10 - 1 / 2) * 0.3))"
  by (simp add: site_step_def generateSeeded_eq tick_eq slice_last_def sdrop_snth)

text \<open>
  C7 as the spec states it fails: \<open>B\<close>'s contents are not independent of \<open>A\<close>'s
  series. With the same clock and the same draws, and no series for PS-ALKI in either
  case, the reading appended for PS-ALKI has temperature 16 when PS-EDMONDS holds one
  reading and 18 when PS-EDMONDS has no series: seeding PS-EDMONDS takes ten draws first.
\<close>

theorem advance_reads_emptiness:
  "map_option (temp \<circ> last)
     (fst (advance
        [''PS-EDMONDS'' \<mapsto> [\<lparr>ts = 0, temp = 18, sal = 30, ph = 8, do_mgL = 8, turb = 20,
           chl = 5, gene_expr = 30, methyl = 0.45, metabo = 30, lipid_ox = 0.3\<rparr>]]
        (sconst 5000) (replicate 20 0 @- sconst (1 / 2))) ''PS-ALKI'')
     = Some 16
   \<and> map_option (temp \<circ> last)
     (fst (advance Map.empty (sconst 5000) (replicate 20 0 @- sconst (1 / 2))) ''PS-ALKI'')
     = Some 18"
proof -
  let ?g = "replicate 20 (0::real) @- sconst (1 / 2)"
  let ?r = "\<lparr>ts = 0, temp = 18, sal = 30, ph = 8, do_mgL = 8, turb = 20,
           chl = 5, gene_expr = 30, methyl = 0.45, metabo = 30, lipid_ox = 0.3\<rparr>"
  have m: "''PS-ALKI'' \<in> site_id ` set SITES"
    by (simp add: SITES_def)
  have k1: "draws_before SITES [''PS-EDMONDS'' \<mapsto> [?r]] ''PS-ALKI'' = 10"
    by (simp add: SITES_def lookup_series_def draws_used_def)
  have k2: "draws_before SITES Map.empty ''PS-ALKI'' = 20"
    by (simp add: SITES_def lookup_series_def draws_used_def)
  have l1: "lookup_series [''PS-EDMONDS'' \<mapsto> [?r]] ''PS-ALKI'' = []"
    by (simp add: lookup_series_def)
  have l2: "lookup_series Map.empty ''PS-ALKI'' = []"
    by (simp add: lookup_series_def)
  have d: "sdrop 10 ?g !! 0 = 0" "sdrop 10 ?g !! 10 = 1 / 2"
    "sdrop 20 ?g !! 0 = 1 / 2" "sdrop 20 ?g !! 10 = 1 / 2"
    by (simp_all add: sdrop_snth shift_snth)
  have a: "fst (advance [''PS-EDMONDS'' \<mapsto> [?r]] (sconst 5000) ?g) ''PS-ALKI''
      = Some (fst (site_step [] 5000 (sdrop 10 ?g)))"
    unfolding advance_exact if_P [OF m] k1 l1 by simp
  have b: "fst (advance Map.empty (sconst 5000) ?g) ''PS-ALKI''
      = Some (fst (site_step [] 5000 (sdrop 20 ?g)))"
    unfolding advance_exact if_P [OF m] k2 l2 by simp
  show ?thesis
    unfolding a b by (simp add: site_step_empty_temp d)
qed

section \<open>CSV export: fixed notation and rows\<close>

lemma digits_small: "n < 10 \<Longrightarrow> digits n = [digit_char n]"
  by (simp add: digits.simps)

lemma digits_large: "10 \<le> n \<Longrightarrow> digits n = digits (n div 10) @ [digit_char (n mod 10)]"
  by (simp add: digits.simps)

lemma digits_0: "digits 0 = ''0''"
  by (simp add: digits_small digit_char_def)

lemma length_digits_le:
  "0 < d \<Longrightarrow> n < 10 ^ d \<Longrightarrow> length (digits n) \<le> d"
proof (induction d arbitrary: n)
  case 0
  then show ?case by simp
next
  case (Suc d)
  show ?case
  proof (cases "n < 10")
    case True
    then show ?thesis by (simp add: digits_small)
  next
    case False
    then have d: "0 < d"
      using Suc.prems(2) by (cases d) auto
    have "n div 10 < 10 ^ d"
      using Suc.prems(2) by (simp add: less_mult_imp_div_less mult.commute)
    then have "length (digits (n div 10)) \<le> d"
      using Suc.IH [OF d] by simp
    then show ?thesis
      using False by (simp add: digits_large)
  qed
qed

lemma zero_pad_digits_Suc:
  assumes "0 < d"
  shows "zero_pad (Suc d) (digits m) = zero_pad d (digits (m div 10)) @ [digit_char (m mod 10)]"
proof (cases "m < 10")
  case True
  have "replicate d (CHR ''0'') = replicate (d - 1) (CHR ''0'') @ ''0''"
    using assms by (cases d) (simp_all add: replicate_append_same)
  then show ?thesis
    using True by (simp add: zero_pad_def digits_small digits_0)
next
  case False
  then show ?thesis
    by (simp add: zero_pad_def digits_large Suc_diff_le)
qed

lemma digits_split:
  "0 < d \<Longrightarrow> 10 ^ d \<le> n \<Longrightarrow>
     digits n = digits (n div 10 ^ d) @ zero_pad d (digits (n mod 10 ^ d))"
proof (induction d arbitrary: n)
  case 0
  then show ?case by simp
next
  case (Suc d)
  have big: "10 \<le> n"
  proof -
    have "(10::nat) ^ 1 \<le> 10 ^ Suc d"
      by (rule power_increasing) simp_all
    then have a: "(10::nat) \<le> 10 ^ Suc d"
      by (simp only: power_one_right)
    show ?thesis
      by (rule order_trans [OF a Suc.prems(2)])
  qed
  show ?case
  proof (cases "d = 0")
    case True
    have "n mod 10 < 10"
      by simp
    then have "zero_pad 1 (digits (n mod 10)) = [digit_char (n mod 10)]"
      by (simp add: zero_pad_def digits_small)
    then show ?thesis
      using True big by (simp add: digits_large)
  next
    case False
    then have d: "0 < d"
      by simp
    have "10 ^ d \<le> n div 10"
      using Suc.prems(2) by (simp add: less_eq_div_iff_mult_less_eq mult.commute)
    then have "digits (n div 10)
        = digits (n div 10 div 10 ^ d) @ zero_pad d (digits (n div 10 mod 10 ^ d))"
      using Suc.IH [OF d] by simp
    moreover have "n div 10 div 10 ^ d = n div 10 ^ Suc d"
      by (simp add: div_mult2_eq)
    moreover have "n div 10 mod 10 ^ d = n mod 10 ^ Suc d div 10"
      by (simp add: mod_mult2_eq)
    moreover have "n mod 10 = n mod 10 ^ Suc d mod 10"
      by (simp add: mod_mod_cancel)
    ultimately show ?thesis
      using big zero_pad_digits_Suc [OF d, of "n mod 10 ^ Suc d"]
      by (simp add: digits_large)
  qed
qed

lemma length_zero_pad_digits:
  "0 < d \<Longrightarrow> m < 10 ^ d \<Longrightarrow> length (zero_pad d (digits m)) = d"
  using length_digits_le [of d m] by (simp add: zero_pad_def)

lemma split_digits:
  assumes "0 < f"
  shows "(let m = digits n;
              m' = (if length m \<le> f then replicate (f + 1 - length m) (CHR ''0'') @ m else m);
              k = length m'
          in take (k - f) m' @ ''.'' @ drop (k - f) m')
       = digits (n div 10 ^ f) @ ''.'' @ zero_pad f (digits (n mod 10 ^ f))"
proof (cases "n < 10 ^ f")
  case True
  then have len: "length (digits n) \<le> f"
    using assms by (rule length_digits_le [rotated])
  have "replicate (f + 1 - length (digits n)) (CHR ''0'')
      = CHR ''0'' # replicate (f - length (digits n)) (CHR ''0'')"
    using len by (simp add: Suc_diff_le)
  then show ?thesis
    using True len by (simp add: Let_def zero_pad_def digits_0)
next
  case False
  then have ge: "10 ^ f \<le> n"
    by simp
  have sp: "digits n = digits (n div 10 ^ f) @ zero_pad f (digits (n mod 10 ^ f))"
    using assms ge by (rule digits_split)
  have lz: "length (zero_pad f (digits (n mod 10 ^ f))) = f"
    using assms by (simp add: length_zero_pad_digits)
  have "length (digits n) = length (digits (n div 10 ^ f)) + f"
    using arg_cong [OF sp, of length] lz by simp
  moreover have "0 < length (digits (n div 10 ^ f))"
    by (cases "n div 10 ^ f < 10") (simp_all add: digits_small digits_large)
  ultimately have k: "\<not> length (digits n) \<le> f"
    and kf: "length (digits n) - f = length (digits (n div 10 ^ f))"
    by simp_all
  have "take (length (digits n) - f) (digits n) = digits (n div 10 ^ f)"
    unfolding kf by (subst sp) simp
  moreover have "drop (length (digits n) - f) (digits n) = zero_pad f (digits (n mod 10 ^ f))"
    unfolding kf by (subst sp) simp
  ultimately show ?thesis
    using k by (simp add: Let_def)
qed

lemma toFixed_fixed_decimal:
  assumes "0 < f" and "\<bar>x\<bar> < 10 ^ 21"
  shows "toFixed h x f = fixed_decimal x f"
proof -
  have a: "(if x < 0 then - x else x) = \<bar>x\<bar>"
    by simp
  have b: "\<not> 10 ^ 21 \<le> \<bar>x\<bar>"
    using assms(2) by simp
  show ?thesis
    unfolding toFixed_def fixed_decimal_def a
    using assms(1) b split_digits [OF assms(1), of "nat \<lfloor>\<bar>x\<bar> * 10 ^ f + 1 / 2\<rfloor>"]
    by (simp add: Let_def)
qed

lemma fixed_decimal_places:
  assumes "0 < d"
  shows "\<exists>ip fp. fixed_decimal x d = (if x < 0 then ''-'' else '''') @ ip @ ''.'' @ fp \<and> length fp = d"
proof -
  let ?n = "nat \<lfloor>\<bar>x\<bar> * 10 ^ d + 1 / 2\<rfloor>"
  have "length (zero_pad d (digits (?n mod 10 ^ d))) = d"
    using assms by (simp add: length_zero_pad_digits)
  then show ?thesis
    unfolding fixed_decimal_def Let_def by blast
qed

lemma in_bounds_printable:
  assumes "in_bounds r" and "\<bar>ts r\<bar> \<le> 8640000000000000"
  shows "printable r"
proof -
  have "\<bar>x\<bar> < 10 ^ 21" if "lo \<le> x" "x \<le> hi" "- (10 ^ 21) < lo" "hi < 10 ^ 21" for x lo hi :: real
    using that by (simp add: abs_less_iff)
  then show ?thesis
    using assms unfolding in_bounds_def printable_def by (intro conjI) (assumption | force)+
qed

lemma csv_line_printable:
  assumes "printable r"
  shows "csv_line h r = Inr (csv_row h r)"
proof -
  have t: "\<bar>ts r\<bar> \<le> 8640000000000000"
    using assms by (simp add: printable_def)
  have f: "toFixed h (temp r) 2 = fixed_decimal (temp r) 2"
    "toFixed h (sal r) 2 = fixed_decimal (sal r) 2"
    "toFixed h (ph r) 2 = fixed_decimal (ph r) 2"
    "toFixed h (do_mgL r) 2 = fixed_decimal (do_mgL r) 2"
    "toFixed h (turb r) 1 = fixed_decimal (turb r) 1"
    "toFixed h (chl r) 1 = fixed_decimal (chl r) 1"
    "toFixed h (gene_expr r) 1 = fixed_decimal (gene_expr r) 1"
    "toFixed h (methyl r) 3 = fixed_decimal (methyl r) 3"
    "toFixed h (metabo r) 1 = fixed_decimal (metabo r) 1"
    "toFixed h (lipid_ox r) 3 = fixed_decimal (lipid_ox r) 3"
    using assms unfolding printable_def by (simp_all only: toFixed_fixed_decimal zero_less_numeral zero_less_one)
  show ?thesis
    unfolding csv_line_def toISOString_def csv_row_def f using t by simp
qed

lemma csv_lines_printable:
  "\<forall>r \<in> set rows. printable r \<Longrightarrow> csv_lines h rows = Inr (map (csv_row h) rows)"
  by (induction rows) (simp_all add: csv_line_printable)

lemma csv_header_eq:
  "csv_header = ''timestamp,time_local,temp_c,sal_psu,ph,do_mgL,turb_ntu,chl_ugL,gene_expr_AU,methyl_frac,metabo_AU,lipid_ox_frac''"
  by (simp add: csv_header_def)

text \<open>
  C6. For every series of readings with valid timestamps and values below \<open>10^21\<close> in
  magnitude (in particular values within the documented ranges), \<open>toCSV\<close> returns the
  header of the twelve fixed column names followed by one row per reading in series
  order, lines joined by a newline; a row is the timestamp, its ISO rendering and the
  ten values in fixed notation with 2, 2, 2, 2, 1, 1, 1, 3, 1 and 3 decimals. Fixed
  notation with \<open>d\<close> decimals has exactly \<open>d\<close> digits after the point. 7.8456 with 2
  decimals is 7.85 and 0.4567 with 3 decimals is 0.457.
\<close>

theorem toCSV_format:
  assumes "\<forall>r \<in> set rows. printable r"
  shows "toCSV h rows = Inr (join newline (csv_header # map (csv_row h) rows))
       \<and> csv_header = ''timestamp,time_local,temp_c,sal_psu,ph,do_mgL,turb_ntu,chl_ugL,gene_expr_AU,methyl_frac,metabo_AU,lipid_ox_frac''
       \<and> (\<forall>x d. 0 < d \<longrightarrow>
            (\<exists>ip fp. fixed_decimal x d = (if x < 0 then ''-'' else '''') @ ip @ ''.'' @ fp
               \<and> length fp = d))
       \<and> toFixed h 7.8456 2 = ''7.85''
       \<and> toFixed h 0.4567 3 = ''0.457''"
proof -
  have a: "toCSV h rows = Inr (join newline (csv_header # map (csv_row h) rows))"
    using csv_lines_printable [OF assms, of h] by (simp add: toCSV_def)
  have c: "\<forall>x d. 0 < d \<longrightarrow>
            (\<exists>ip fp. fixed_decimal x d = (if x < 0 then ''-'' else '''') @ ip @ ''.'' @ fp
               \<and> length fp = d)"
    using fixed_decimal_places by blast
  have d: "toFixed h 7.8456 2 = ''7.85''"
    by (simp add: toFixed_def digits.simps digit_char_def Let_def)
  have e: "toFixed h 0.4567 3 = ''0.457''"
    by (simp add: toFixed_def digits.simps digit_char_def Let_def)
  show ?thesis
    by (intro conjI a csv_header_eq c d e)
qed

theorem toCSV_format_witness:
  "toCSV \<lparr>Date_toISOString = (\<lambda>t. ''2023-11-14T22:13:20.000Z''), Number_toString = (\<lambda>x. ''1e+21'')\<rparr>
     [\<lparr>ts = 1700000000000, temp = 18.456, sal = 30.1, ph = 7.8456, do_mgL = 8.2, turb = 20.04,
       chl = 5.56, gene_expr = 30, methyl = 0.4567, metabo = 0.04, lipid_ox = 0.3\<rparr>]
   = Inr (''timestamp,time_local,temp_c,sal_psu,ph,do_mgL,turb_ntu,chl_ugL,gene_expr_AU,methyl_frac,metabo_AU,lipid_ox_frac''
       @ [CHR 0x0A]
       @ ''1700000000000,2023-11-14T22:13:20.000Z,18.46,30.10,7.85,8.20,20.0,5.6,30.0,0.457,0.0,0.300'')"
proof -
  let ?h = "\<lparr>Date_toISOString = (\<lambda>t. ''2023-11-14T22:13:20.000Z''), Number_toString = (\<lambda>x. ''1e+21'')\<rparr>"
  let ?r = "\<lparr>ts = 1700000000000, temp = 18.456, sal = 30.1, ph = 7.8456, do_mgL = 8.2, turb = 20.04,
       chl = 5.56, gene_expr = 30, methyl = 0.4567, metabo = 0.04, lipid_ox = 0.3\<rparr>"
  have p: "\<forall>r \<in> set [?r]. printable r"
    by (simp add: printable_def)
  have row: "csv_row ?h ?r
      = ''1700000000000,2023-11-14T22:13:20.000Z,18.46,30.10,7.85,8.20,20.0,5.6,30.0,0.457,0.0,0.300''"
    by (simp add: csv_row_def fixed_decimal_def zero_pad_def int_toString_def digits.simps
        digit_char_def Let_def)
  have T: "toCSV ?h [?r] = Inr (join newline (csv_header # map (csv_row ?h) [?r]))"
    by (rule toCSV_format [OF p, THEN conjunct1])
  have j: "join newline (csv_header # map (csv_row ?h) [?r]) = csv_header @ newline @ csv_row ?h ?r"
    by (simp only: list.map join.simps)
  have "toCSV ?h [?r] = Inr (csv_header @ newline @ csv_row ?h ?r)"
    unfolding T j by (rule refl)
  then show ?thesis
    unfolding row csv_header_eq newline_def .
qed

text \<open>
  C10. On the empty series \<open>toCSV\<close> returns exactly the header line, the twelve
  column names joined by commas: there is no data row and no newline in it.
\<close>

theorem toCSV_empty:
  "toCSV h [] = Inr ''timestamp,time_local,temp_c,sal_psu,ph,do_mgL,turb_ntu,chl_ugL,gene_expr_AU,methyl_frac,metabo_AU,lipid_ox_frac''
   \<and> CHR 0x0A \<notin> set ''timestamp,time_local,temp_c,sal_psu,ph,do_mgL,turb_ntu,chl_ugL,gene_expr_AU,methyl_frac,metabo_AU,lipid_ox_frac''"
  by (simp add: toCSV_def csv_header_def)

section \<open>The order of the alerts\<close>

lemma bsearch_const:
  "l \<le> r \<Longrightarrow> (\<And>y. (cmp p y < 0) = c) \<Longrightarrow> bsearch cmp p xs l r = (if c then l else r)"
proof (induction cmp p xs l r rule: bsearch.induct)
  case (1 cmp pivot xs left right)
  show ?case
  proof (cases "left < right")
    case False
    then show ?thesis
      using "1.prems"(1) by (simp add: bsearch.simps)
  next
    case lt: True
    let ?mid = "left + (right - left) div 2"
    have m: "left \<le> ?mid" "?mid + 1 \<le> right"
      using lt by auto
    show ?thesis
    proof (cases c)
      case True
      then have c: "cmp pivot (xs ! ?mid) < 0"
        using "1.prems"(2) by simp
      have "bsearch cmp pivot xs left right = bsearch cmp pivot xs left ?mid"
        using lt c by (subst bsearch.simps) (simp add: Let_def)
      also have "\<dots> = left"
        using "1.IH"(1) [OF lt refl c m(1) "1.prems"(2)] True by simp
      finally show ?thesis
        using True by simp
    next
      case False
      then have c: "\<not> cmp pivot (xs ! ?mid) < 0"
        using "1.prems"(2) by simp
      have "bsearch cmp pivot xs left right = bsearch cmp pivot xs (?mid + 1) right"
        using lt c by (subst bsearch.simps) (simp add: Let_def)
      also have "\<dots> = right"
        using "1.IH"(2) [OF lt refl c m(2) "1.prems"(2)] False by simp
      finally show ?thesis
        using False by simp
    qed
  qed
qed

lemma bsearch_alert:
  "l \<le> r \<Longrightarrow> bsearch alert_cmp p xs l r = (if is_crit p then l else r)"
  by (rule bsearch_const) (simp_all add: alert_cmp_def is_crit_def)

lemma binary_insertion_alert:
  "binary_insertion alert_cmp pre rest
     = rev (filter is_crit rest) @ pre @ filter (\<lambda>a. \<not> is_crit a) rest"
  by (induction rest arbitrary: pre) (simp_all add: bsearch_alert Let_def)

lemma run_ext_alert:
  "run_ext alert_cmp desc prev xs
     = length (takeWhile (\<lambda>a. if desc then is_crit a else \<not> is_crit a) xs)"
  by (induction xs arbitrary: prev) (simp_all add: alert_cmp_def is_crit_def Let_def)

lemma filter_takeWhile_dropWhile:
  "filter P xs = takeWhile P xs @ filter P (dropWhile P xs)"
  by (induction xs) simp_all

lemma filter_not_dropWhile:
  "filter (\<lambda>a. \<not> P a) xs = filter (\<lambda>a. \<not> P a) (dropWhile P xs)"
  by (induction xs) simp_all

lemma filter_dropWhile_not:
  "filter P xs = filter P (dropWhile (\<lambda>a. \<not> P a) xs)"
  by (induction xs) simp_all

lemma filter_not_takeWhile_dropWhile:
  "filter (\<lambda>a. \<not> P a) xs
     = takeWhile (\<lambda>a. \<not> P a) xs @ filter (\<lambda>a. \<not> P a) (dropWhile (\<lambda>a. \<not> P a) xs)"
  by (induction xs) simp_all

lemma take_length_takeWhile: "take (length (takeWhile P xs)) xs = takeWhile P xs"
  by (induction xs) simp_all

lemma drop_length_takeWhile: "drop (length (takeWhile P xs)) xs = dropWhile P xs"
  by (induction xs) simp_all

lemma Array_sort_alert:
  "Array_sort alert_cmp xs = rev (filter is_crit xs) @ filter (\<lambda>a. \<not> is_crit a) xs"
proof (cases xs)
  case Nil
  then show ?thesis
    by (simp add: Array_sort_def)
next
  case (Cons x0 xs1)
  show ?thesis
  proof (cases xs1)
    case Nil
    then show ?thesis
      using Cons by (simp add: Array_sort_def)
  next
    case (Cons x1 rest)
    have xs: "xs = x0 # x1 # rest"
      using \<open>xs = x0 # xs1\<close> Cons by simp
    have d: "(alert_cmp x1 x0 < 0) = is_crit x1"
      by (simp add: alert_cmp_def is_crit_def)
    show ?thesis
    proof (cases "is_crit x1")
      case True
      let ?tw = "takeWhile is_crit rest" and ?dw = "dropWhile is_crit rest"
      let ?n = "2 + length ?tw"
      have tk: "take ?n xs = x0 # x1 # ?tw" and dr: "drop ?n xs = ?dw"
        unfolding xs by (simp_all add: take_length_takeWhile drop_length_takeWhile)
      have len: "length (rev (take ?n xs)) = ?n"
        unfolding tk by simp
      have run: "count_and_make_run alert_cmp xs = (?n, rev (take ?n xs) @ drop ?n xs)"
        using True unfolding xs by (simp add: d run_ext_alert Let_def)
      have "Array_sort alert_cmp xs
          = binary_insertion alert_cmp (take ?n (rev (take ?n xs) @ drop ?n xs))
              (drop ?n (rev (take ?n xs) @ drop ?n xs))"
        unfolding Array_sort_def run by (simp add: xs)
      also have "take ?n (rev (take ?n xs) @ drop ?n xs) = rev (take ?n xs)"
        using len by (metis append_eq_conv_conj)
      also have "drop ?n (rev (take ?n xs) @ drop ?n xs) = drop ?n xs"
        using len by (metis append_eq_conv_conj)
      finally have "Array_sort alert_cmp xs
          = rev (filter is_crit ?dw) @ rev (x0 # x1 # ?tw) @ filter (\<lambda>a. \<not> is_crit a) ?dw"
        unfolding tk dr by (simp only: binary_insertion_alert)
      moreover have "filter is_crit rest = ?tw @ filter is_crit ?dw"
        by (rule filter_takeWhile_dropWhile)
      moreover have "filter (\<lambda>a. \<not> is_crit a) rest = filter (\<lambda>a. \<not> is_crit a) ?dw"
        by (rule filter_not_dropWhile)
      ultimately show ?thesis
        using True unfolding xs by (cases "is_crit x0") simp_all
    next
      case False
      let ?tw = "takeWhile (\<lambda>a. \<not> is_crit a) rest" and ?dw = "dropWhile (\<lambda>a. \<not> is_crit a) rest"
      let ?n = "2 + length ?tw"
      have tk: "take ?n xs = x0 # x1 # ?tw" and dr: "drop ?n xs = ?dw"
        unfolding xs by (simp_all add: take_length_takeWhile drop_length_takeWhile)
      have run: "count_and_make_run alert_cmp xs = (?n, xs)"
        using False unfolding xs by (simp add: d run_ext_alert Let_def)
      have "Array_sort alert_cmp xs = binary_insertion alert_cmp (take ?n xs) (drop ?n xs)"
        unfolding Array_sort_def run by (simp add: xs)
      then have "Array_sort alert_cmp xs
          = rev (filter is_crit ?dw) @ (x0 # x1 # ?tw) @ filter (\<lambda>a. \<not> is_crit a) ?dw"
        unfolding tk dr by (simp only: binary_insertion_alert)
      moreover have "filter is_crit rest = filter is_crit ?dw"
        by (rule filter_dropWhile_not)
      moreover have "filter (\<lambda>a. \<not> is_crit a) rest = ?tw @ filter (\<lambda>a. \<not> is_crit a) ?dw"
        by (rule filter_not_takeWhile_dropWhile)
      ultimately show ?thesis
        using False unfolding xs by (cases "is_crit x0") simp_all
    qed
  qed
qed

lemma binary_insertion_mset:
  "mset (binary_insertion cmp pre rest) = mset pre + mset rest"
proof (induction rest arbitrary: pre)
  case Nil
  show ?case by simp
next
  case (Cons pivot rest)
  let ?left = "bsearch cmp pivot pre 0 (length pre)"
  have "mset (take ?left pre) + mset (drop ?left pre) = mset pre"
    using arg_cong [OF append_take_drop_id [of ?left pre], of mset]
    by (simp del: append_take_drop_id)
  then have "mset (take ?left pre @ [pivot] @ drop ?left pre) = mset pre + {#pivot#}"
    by simp
  then show ?case
    using Cons.IH [of "take ?left pre @ [pivot] @ drop ?left pre"] by (simp add: Let_def)
qed

lemma count_and_make_run_mset:
  "mset (snd (count_and_make_run cmp xs)) = mset xs"
proof (cases xs)
  case Nil
  then show ?thesis by simp
next
  case (Cons x0 xs1)
  show ?thesis
  proof (cases xs1)
    case Nil
    then show ?thesis using Cons by simp
  next
    case (Cons x1 rest)
    let ?l = "x0 # x1 # rest"
    have "mset (rev (take n ?l) @ drop n ?l) = mset ?l" for n
      using arg_cong [OF append_take_drop_id [of n ?l], of mset] by (simp del: append_take_drop_id)
    then show ?thesis
      using \<open>xs = x0 # xs1\<close> Cons by (simp add: Let_def del: mset.simps take_Suc_Cons drop_Suc_Cons)
  qed
qed

lemma Array_sort_mset: "mset (Array_sort cmp xs) = mset xs"
proof (cases "length xs < 2")
  case True
  then show ?thesis by (simp add: Array_sort_def)
next
  case False
  obtain n ys where r: "count_and_make_run cmp xs = (n, ys)"
    by (cases "count_and_make_run cmp xs")
  have "mset ys = mset xs"
    using count_and_make_run_mset [of cmp xs] r by simp
  moreover have "mset (take n ys) + mset (drop n ys) = mset ys"
    using arg_cong [OF append_take_drop_id [of n ys], of mset] by (simp del: append_take_drop_id)
  ultimately show ?thesis
    using False r by (simp add: Array_sort_def binary_insertion_mset)
qed

text \<open>
  Whatever the order, the alerts are the classified records that are not ok, each once.
\<close>

lemma alerts_members:
  "mset (alerts th (Some r)) = mset (filter (\<lambda>a. a_level a \<noteq> Ok) (classified th r))"
  by (simp add: alerts_def classified_def Array_sort_mset)

text \<open>
  With V8's sort the critical records come first, in the reverse of their enumeration
  order, and the warnings follow in enumeration order.
\<close>

lemma alerts_v8_order:
  "alerts th (Some r)
     = rev (filter is_crit (filter (\<lambda>a. a_level a \<noteq> Ok) (classified th r)))
       @ filter (\<lambda>a. \<not> is_crit a) (filter (\<lambda>a. a_level a \<noteq> Ok) (classified th r))"
  by (simp only: alerts_def classified_def option.case Array_sort_alert)

text \<open>
  C4. The spec orders the records of one severity by enumeration, so temperature before
  dissolved oxygen. On a reading whose temperature (25) and dissolved oxygen (3) are both
  critical and whose other values are ok, the alerts are dissolved oxygen first and
  temperature second.
\<close>

theorem alerts_reverses_critical:
  "alerts THRESHOLDS
     (Some \<lparr>ts = 0, temp = 25, sal = 22, ph = 8, do_mgL = 3, turb = 10, chl = 5,
        gene_expr = 30, methyl = 0.4, metabo = 30, lipid_ox = 0.3\<rparr>)
   = [\<lparr>a_key = Do, a_level = Crit, a_value = 3\<rparr>,
      \<lparr>a_key = Temp, a_level = Crit, a_value = 25\<rparr>]"
  unfolding alerts_v8_order
  by (simp add: classified_def keys_def classifyAlert_def is_crit_def)

section \<open>Seeded readings against the initial thresholds\<close>

text \<open>
  In exact arithmetic a seeded reading is ok in every parameter under the initial
  thresholds, for draws in \<open>[0, 1)\<close>: each seed range lies on the ok side of the
  warning level of its parameter. For temperature, gene expression and
  lipid oxidation the range ends exactly at the warning level (20, 40 and 0.35), so the
  statement rests on the strict bound \<open>u < 1\<close> surviving the arithmetic, which it
  does not with doubles (next section).
\<close>

lemma seeded_ok_exact:
  assumes "\<forall>u \<in> sset g. 0 \<le> u \<and> u < 1"
  shows "classifyAlert THRESHOLDS k (param_value k (fst (generateSeeded start g))) = Ok"
proof -
  have u: "0 \<le> g !! i \<and> g !! i < 1" for i
    using assms snth_sset [of g i] by blast
  show ?thesis
    using u [of 0] u [of 1] u [of 2] u [of 3] u [of 4] u [of 5] u [of 6] u [of 7] u [of 8] u [of 9]
    by (cases k) (simp_all add: generateSeeded_eq classifyAlert_def)
qed

lemma seeded_no_alerts_exact:
  assumes "\<forall>u \<in> sset g. 0 \<le> u \<and> u < 1"
  shows "alerts THRESHOLDS (Some (fst (generateSeeded start g))) = []"
proof -
  have "filter (\<lambda>a. a_level a \<noteq> Ok) (classified THRESHOLDS (fst (generateSeeded start g))) = []"
    using seeded_ok_exact [OF assms] by (simp add: classified_def filter_empty_conv)
  then show ?thesis
    using alerts_members [of THRESHOLDS "fst (generateSeeded start g)"] by simp
qed

section \<open>Seeded readings in double arithmetic\<close>

lemma bit_length_pos: "0 < n \<Longrightarrow> 0 < bit_length n"
  by (subst bit_length.simps) simp

lemma bit_length_bounds:
  "0 < n \<Longrightarrow> 2 ^ (bit_length n - 1) \<le> n \<and> n < 2 ^ bit_length n"
proof (induction n rule: bit_length.induct)
  case (1 n)
  show ?case
  proof (cases "n div 2 = 0")
    case True
    then have "n = 1"
      using "1.prems" by (cases n) auto
    then show ?thesis
      by (simp add: bit_length.simps)
  next
    case False
    then have pos: "0 < n div 2"
      by simp
    have ih: "2 ^ (bit_length (n div 2) - 1) \<le> n div 2 \<and> n div 2 < 2 ^ bit_length (n div 2)"
      using "1.IH" "1.prems" pos by simp
    have bl: "bit_length n = Suc (bit_length (n div 2))"
      using "1.prems" by (subst bit_length.simps) simp
    have p: "0 < bit_length (n div 2)"
      using pos by (rule bit_length_pos)
    have "2 ^ (bit_length n - 1) = 2 * 2 ^ (bit_length (n div 2) - 1)"
      using p by (cases "bit_length (n div 2)") (simp_all add: bl)
    also have "\<dots> \<le> 2 * (n div 2)"
      using ih by simp
    also have "\<dots> \<le> n"
      by simp
    finally have lo: "2 ^ (bit_length n - 1) \<le> n" .
    have "n < 2 * (n div 2) + 2"
      by presburger
    also have "\<dots> \<le> 2 * 2 ^ bit_length (n div 2)"
      using ih by simp
    finally have hi: "n < 2 ^ bit_length n"
      by (simp add: bl)
    show ?thesis
      using lo hi by simp
  qed
qed

lemma binade_bounds:
  assumes "0 < x"
  shows "2 powi binade x \<le> x \<and> x < 2 powi (binade x + 1)"
proof (cases "1 \<le> x")
  case True
  let ?n = "nat \<lfloor>x\<rfloor>"
  let ?b = "bit_length ?n"
  have n: "0 < ?n"
    using True by simp
  have b: "0 < ?b"
    using n by (rule bit_length_pos)
  have bd: "2 ^ (?b - 1) \<le> ?n" "?n < 2 ^ ?b"
    using bit_length_bounds [OF n] by simp_all
  have e: "binade x = int (?b - 1)"
    using True b by (simp add: binade_def of_nat_diff)
  have e1: "binade x + 1 = int ?b"
    using b unfolding e by simp
  have pw: "(2::real) powi int k = real (2 ^ k)" for k
    by simp
  have r1: "real ?n \<le> x"
    using True by simp
  have r2: "real (2 ^ (?b - 1)) \<le> real ?n"
    using bd(1) by (simp only: of_nat_le_iff)
  have lo: "2 powi binade x \<le> x"
    unfolding e pw by (rule order_trans [OF r2 r1])
  have r3: "x < real ?n + 1"
    using True by simp
  have "Suc ?n \<le> 2 ^ ?b"
    by (rule Suc_leI [OF bd(2)])
  then have "real (Suc ?n) \<le> real (2 ^ ?b)"
    by (simp only: of_nat_le_iff)
  then have r4: "real ?n + 1 \<le> real (2 ^ ?b)"
    by simp
  have hi: "x < 2 powi (binade x + 1)"
    unfolding e1 pw by (rule less_le_trans [OF r3 r4])
  show ?thesis
    using lo hi by (rule conjI)
next
  case False
  let ?m = "nat (\<lceil>1 / x\<rceil> - 1)"
  let ?b = "bit_length ?m"
  have z: "1 < 1 / x"
    using False assms by simp
  then have k: "2 \<le> \<lceil>1 / x\<rceil>"
    by (simp add: le_ceiling_iff)
  then have m: "0 < ?m"
    by simp
  have b: "0 < ?b"
    using m by (rule bit_length_pos)
  have bd: "2 ^ (?b - 1) \<le> ?m" "?m < 2 ^ ?b"
    using bit_length_bounds [OF m] by simp_all
  have e: "binade x = - int ?b"
    using False by (simp add: binade_def)
  have e1: "binade x + 1 = - int (?b - 1)"
    using b unfolding e by simp
  have pw: "(2::real) powi (- int k) = 1 / real (2 ^ k)" for k
    by (simp add: power_int_minus field_simps)
  have nn: "0 \<le> \<lceil>1 / x\<rceil> - 1"
    using k by linarith
  have rm: "real ?m = real_of_int (\<lceil>1 / x\<rceil> - 1)"
    by (rule of_nat_nat [OF nn])
  have mz1: "real ?m < 1 / x"
    unfolding rm by linarith
  have mz2: "1 / x \<le> real ?m + 1"
    unfolding rm by linarith
  have "Suc ?m \<le> 2 ^ ?b"
    by (rule Suc_leI [OF bd(2)])
  then have "real (Suc ?m) \<le> real (2 ^ ?b)"
    by (simp only: of_nat_le_iff)
  then have "real ?m + 1 \<le> real (2 ^ ?b)"
    by simp
  then have u: "1 / x \<le> real (2 ^ ?b)"
    using mz2 by (rule order_trans [rotated])
  have p1: "0 < real (2 ^ ?b)"
    by simp
  have "1 / real (2 ^ ?b) \<le> x"
    using u assms p1 by (simp add: field_simps)
  then have lo: "2 powi binade x \<le> x"
    unfolding e pw .
  have "real (2 ^ (?b - 1)) \<le> real ?m"
    using bd(1) by (simp only: of_nat_le_iff)
  then have v: "real (2 ^ (?b - 1)) < 1 / x"
    using mz1 by (rule le_less_trans)
  have p2: "0 < real (2 ^ (?b - 1))"
    by simp
  have "x < 1 / real (2 ^ (?b - 1))"
    using v assms p2 by (simp add: field_simps)
  then have hi: "x < 2 powi (binade x + 1)"
    unfolding e1 pw .
  show ?thesis
    using lo hi by (rule conjI)
qed















end
